theory Spec2Isabelle
  imports Main
begin

section \<open>Python strings and the character tests the grammar code relies on\<close>

text \<open>
  A Python \<open>str\<close> is a sequence of Unicode code points, so a symbol of the grammar is a
  list of natural numbers. \<open>py\<close> turns an ASCII literal into that representation, and
  \<open>eps\<close> is the one-character string U+03B5 that the source writes as the epsilon marker.
\<close>

type_synonym pystr = "nat list"

definition py :: "string \<Rightarrow> pystr" where
  "py s = map of_char s"

definition eps :: pystr where
  "eps = [949]"

text \<open>
  \<open>str.isupper\<close>, \<open>str.islower\<close> and the regular expression class \<open>\d\<close> read the
  Unicode character database. Each code point has one of five classes here. The classes
  of the ASCII range and of U+03B5 are fixed below; the rest of the database is the
  parameter \<open>db\<close> of every function that consults it.
\<close>

datatype ucat = Upper | Lower | Title | Decimal | Uncased

type_synonym ucd = "nat \<Rightarrow> ucat"

definition cat :: "ucd \<Rightarrow> nat \<Rightarrow> ucat" where
  "cat db c =
     (if 65 \<le> c \<and> c \<le> 90 then Upper
      else if 97 \<le> c \<and> c \<le> 122 then Lower
      else if 48 \<le> c \<and> c \<le> 57 then Decimal
      else if c < 128 then Uncased
      else if c = 949 then Lower
      else db c)"

text \<open>
  \<open>s.isupper()\<close>: a one-character string is tested directly; otherwise no character may
  be lowercase or titlecase and at least one must be uppercase. \<open>s.islower()\<close> is the
  mirror image.
\<close>

definition isupper :: "ucd \<Rightarrow> pystr \<Rightarrow> bool" where
  "isupper db s =
     (case s of
        [c] \<Rightarrow> cat db c = Upper
      | _ \<Rightarrow> list_all (\<lambda>c. cat db c \<noteq> Lower \<and> cat db c \<noteq> Title) s
             \<and> list_ex (\<lambda>c. cat db c = Upper) s)"

definition islower :: "ucd \<Rightarrow> pystr \<Rightarrow> bool" where
  "islower db s =
     (case s of
        [c] \<Rightarrow> cat db c = Lower
      | _ \<Rightarrow> list_all (\<lambda>c. cat db c \<noteq> Upper \<and> cat db c \<noteq> Title) s
             \<and> list_ex (\<lambda>c. cat db c = Lower) s)"

text \<open>
  \<open>re.match(r'[A-Z]\d*$', lhs)\<close>: one character in the range A to Z, then decimal
  digits, then the end of the string; without the MULTILINE flag \<open>$\<close> also matches just
  before a newline that ends the string.
\<close>

definition match_lhs :: "ucd \<Rightarrow> pystr \<Rightarrow> bool" where
  "match_lhs db lhs =
     (case lhs of
        [] \<Rightarrow> False
      | c # r \<Rightarrow> 65 \<le> c \<and> c \<le> 90 \<and>
          (list_all (\<lambda>d. cat db d = Decimal) r
           \<or> (r \<noteq> [] \<and> last r = 10 \<and> list_all (\<lambda>d. cat db d = Decimal) (butlast r))))"

text \<open>
  The naming convention in the words of the specification: an uppercase letter followed
  by digits, and nothing else.
\<close>

definition variable_name :: "ucd \<Rightarrow> pystr \<Rightarrow> bool" where
  "variable_name db s =
     (case s of [] \<Rightarrow> False
      | c # r \<Rightarrow> 65 \<le> c \<and> c \<le> 90 \<and> list_all (\<lambda>d. cat db d = Decimal) r)"

text \<open>\<open>str(i)\<close> for a non-negative integer, as the f-string \<open>f'U{i}'\<close> needs it.\<close>

fun str_nat :: "nat \<Rightarrow> pystr" where
  "str_nat n = (if n < 10 then [48 + n] else str_nat (n div 10) @ [48 + n mod 10])"

declare str_nat.simps [simp del]

section \<open>The grammar object\<close>

type_synonym symbol = pystr
type_synonym production = "symbol list"

text \<open>
  \<open>rules\<close> is a Python dict, which keeps its keys in insertion order; the pipeline
  iterates over it, so it is an association list. \<open>variables\<close> and \<open>terminals\<close> are
  Python sets that are only tested for membership and added to.
\<close>

type_synonym rule_map = "(symbol \<times> production list) list"

record grammar =
  variables :: "symbol set"
  terminals :: "symbol set"
  rules :: rule_map
  start_variable :: symbol

datatype error = InvalidRule | KeyError | ValueError

text \<open>
  The methods mutate the grammar in place, and an exception leaves it as it was when
  the exception was raised. A call therefore yields the exception, if any, together with
  the grammar after the call.
\<close>

type_synonym outcome = "error option \<times> grammar"

text \<open>\<open>d[k] = v\<close>: an existing key keeps its position, a new key goes to the end.\<close>

fun dict_set :: "rule_map \<Rightarrow> symbol \<Rightarrow> production list \<Rightarrow> rule_map" where
  "dict_set [] k v = [(k, v)]"
| "dict_set ((k', v') # d) k v = (if k' = k then (k, v) # d else (k', v') # dict_set d k v)"

definition sort_rules :: "grammar \<Rightarrow> outcome" where
  "sort_rules g =
     (case map_of (rules g) (start_variable g) of
        None \<Rightarrow> (Some KeyError, g)
      | Some ps \<Rightarrow>
          (None, g\<lparr>rules :=
             foldl (\<lambda>new_rules (variable, products).
                      if variable \<noteq> start_variable g then dict_set new_rules variable products
                      else new_rules)
                   [(start_variable g, ps)] (rules g)\<rparr>))"

text \<open>
  \<open>__init__\<close> stores its arguments and sorts the rules; it raises \<open>KeyError\<close> when the
  start variable has no rule.
\<close>

definition ContextFreeGrammar :: "symbol list \<Rightarrow> symbol list \<Rightarrow> rule_map \<Rightarrow> symbol \<Rightarrow> outcome" where
  "ContextFreeGrammar vs ts rs s =
     sort_rules \<lparr>variables = set vs, terminals = set ts, rules = rs, start_variable = s\<rparr>"

definition add_product :: "symbol \<Rightarrow> production \<Rightarrow> grammar \<Rightarrow> grammar" where
  "add_product variable product g =
     (let g1 = g\<lparr>variables := insert variable (variables g)\<rparr> in
      case map_of (rules g1) variable of
        Some ps \<Rightarrow>
          if product \<notin> set ps then g1\<lparr>rules := dict_set (rules g1) variable (ps @ [product])\<rparr>
          else g1
      | None \<Rightarrow> g1\<lparr>rules := dict_set (rules g1) variable [product]\<rparr>)"

definition scan_item :: "ucd \<Rightarrow> grammar \<Rightarrow> symbol \<Rightarrow> grammar" where
  "scan_item db g item =
     (let g1 = (if isupper db item \<and> item \<notin> variables g
                then g\<lparr>variables := insert item (variables g)\<rparr> else g)
      in if islower db item \<or> item = eps
         then g1\<lparr>terminals := insert item (terminals g1)\<rparr> else g1)"

definition add_rhs_item :: "ucd \<Rightarrow> symbol \<Rightarrow> grammar \<Rightarrow> production \<Rightarrow> grammar" where
  "add_rhs_item db lhs g rhs_item = add_product lhs rhs_item (foldl (scan_item db) g rhs_item)"

definition add_rule :: "ucd \<Rightarrow> symbol \<Rightarrow> production list \<Rightarrow> grammar \<Rightarrow> outcome" where
  "add_rule db lhs rhs g =
     (if \<not> match_lhs db lhs then (Some InvalidRule, g)
      else (None, foldl (add_rhs_item db lhs) g rhs))"

section \<open>Helpers of the pipeline\<close>

text \<open>
  \<open>generate_combinations\<close>: the positions of \<open>variable\<close> in \<open>item\<close>, every 0/1 tuple over
  them in the order of \<open>itertools.product\<close>, the positions with 0 replaced by
  \<open>None\<close> and then dropped, and an empty result replaced by the epsilon production.
\<close>

definition generate_combinations :: "production \<Rightarrow> symbol \<Rightarrow> production list" where
  "generate_combinations item variable =
     (let indices = filter (\<lambda>i. item ! i = variable) [0..<length item];
          combinations = product_lists (replicate (length indices) [0::nat, 1])
      in map (\<lambda>combination.
                let new_list = foldl (\<lambda>nl (idx, include). if include = 0 then nl[idx := None] else nl)
                                     (map Some item) (zip indices combination);
                    result = List.map_filter id new_list
                in if result = [] then [eps] else result)
             combinations)"

definition replace_products :: "grammar \<Rightarrow> symbol \<Rightarrow> production list \<Rightarrow> outcome" where
  "replace_products g variable products =
     (case map_of (rules g) variable of
        None \<Rightarrow> (Some KeyError, g)
      | Some _ \<Rightarrow>
          (None, foldl (\<lambda>g' product. add_product variable product g')
                       (g\<lparr>rules := dict_set (rules g) variable []\<rparr>) products))"

section \<open>Stage 1: the start variable\<close>

text \<open>
  The two nested loops return at the first production equal to \<open>[start_variable]\<close>, and
  what they do then does not depend on where it was found.
\<close>

definition start_is_production :: "grammar \<Rightarrow> bool" where
  "start_is_production g =
     list_ex (\<lambda>(variable, products).
                list_ex (\<lambda>product. product = [start_variable g]) products) (rules g)"

definition change_start_variable :: "ucd \<Rightarrow> grammar \<Rightarrow> outcome" where
  "change_start_variable db g =
     (if start_is_production g
      then (case add_rule db (py ''S0'') [[start_variable g]] g of
              (Some e, g1) \<Rightarrow> (Some e, g1)
            | (None, g1) \<Rightarrow> sort_rules (g1\<lparr>start_variable := py ''S0''\<rparr>))
      else (None, g))"

section \<open>Stage 2: epsilon rules\<close>

text \<open>
  \<open>nullable\<close> is a Python set whose \<open>pop\<close> returns an arbitrary element. It is a list
  without repetitions here, and the element popped in each round of the loop is chosen
  by a schedule: the head of \<open>sched\<close>, taken modulo the size of the set (0 once the
  schedule is used up). Every order of popping is the behaviour under some schedule.
  \<open>visited\<close> is the list of the elements added to that set, in the order of the calls
  of \<open>visited.add\<close>; the loop returns it beside the grammar.
\<close>

definition set_add :: "'a \<Rightarrow> 'a list \<Rightarrow> 'a list" where
  "set_add x xs = (if x \<in> set xs then xs else xs @ [x])"

definition pick :: "nat list \<Rightarrow> nat" where
  "pick sched = (case sched of [] \<Rightarrow> 0 | k # _ \<Rightarrow> k)"

definition initial_nullable :: "grammar \<Rightarrow> symbol list" where
  "initial_nullable g =
     foldl (\<lambda>s (variable, products). if [eps] \<in> set products then set_add variable s else s)
           [] (rules g)"

definition expand_products :: "symbol \<Rightarrow> production list \<Rightarrow> production list" where
  "expand_products variable pros =
     concat (map (\<lambda>pro. if variable \<in> set pro then generate_combinations pro variable else [pro])
                 pros)"

text \<open>
  The \<open>for var, pros in grammar.rules.items()\<close> loop of one round. The keys of the dict
  do not change during the loop, so it runs over the keys found at its start and reads
  the current list of each.
\<close>

fun eps_for :: "symbol \<Rightarrow> symbol list \<Rightarrow> symbol list \<Rightarrow> grammar \<Rightarrow> symbol list
                 \<Rightarrow> error option \<times> grammar \<times> symbol list" where
  "eps_for variable visited [] g nullable = (None, g, nullable)"
| "eps_for variable visited (var # vars) g nullable =
     (case map_of (rules g) var of
        None \<Rightarrow> (Some KeyError, g, nullable)
      | Some pros \<Rightarrow>
          (case replace_products g var (expand_products variable pros) of
             (Some e, g1) \<Rightarrow> (Some e, g1, nullable)
           | (None, g1) \<Rightarrow>
               (case map_of (rules g1) var of
                  None \<Rightarrow> (Some KeyError, g1, nullable)
                | Some pros1 \<Rightarrow>
                    eps_for variable visited vars g1
                      (if [eps] \<in> set pros1 \<and> var \<notin> set visited then set_add var nullable
                       else nullable))))"

text \<open>
  One round of \<open>while nullable\<close>: pop a variable, remove its epsilon production, mark it
  visited and rewrite every rule.
\<close>

definition eps_round :: "nat \<Rightarrow> symbol list \<Rightarrow> symbol list \<Rightarrow> grammar
                          \<Rightarrow> error option \<times> grammar \<times> symbol list \<times> symbol list" where
  "eps_round k visited nullable g =
     (let variable = nullable ! (k mod length nullable) in
      case map_of (rules g) variable of
        None \<Rightarrow> (Some KeyError, g, removeAll variable nullable, visited)
      | Some ps \<Rightarrow>
          if [eps] \<notin> set ps then (Some ValueError, g, removeAll variable nullable, visited)
          else
            (case eps_for variable (visited @ [variable]) (map fst (rules g))
                    (g\<lparr>rules := dict_set (rules g) variable (remove1 [eps] ps)\<rparr>)
                    (removeAll variable nullable) of
               (e, g2, nullable2) \<Rightarrow> (e, g2, nullable2, visited @ [variable])))"

partial_function (option) eps_while ::
  "nat list \<Rightarrow> symbol list \<Rightarrow> symbol list \<Rightarrow> grammar
     \<Rightarrow> (error option \<times> grammar \<times> symbol list) option" where
  "eps_while sched visited nullable g =
     (if nullable = [] then Some (None, g, visited)
      else
        (case eps_round (pick sched) visited nullable g of
           (Some e, g2, nullable2, visited2) \<Rightarrow> Some (Some e, g2, visited2)
         | (None, g2, nullable2, visited2) \<Rightarrow> eps_while (tl sched) visited2 nullable2 g2))"

declare eps_while.simps [code]

definition remove_epsilon_rules :: "nat list \<Rightarrow> grammar \<Rightarrow> outcome option" where
  "remove_epsilon_rules sched g =
     map_option (\<lambda>(e, g', visited). (e, g')) (eps_while sched [] (initial_nullable g) g)"

section \<open>Stage 3: unit rules\<close>

definition unit_pairs_of :: "grammar \<Rightarrow> (symbol \<times> production) list" where
  "unit_pairs_of g =
     concat (map (\<lambda>(variable, products).
                    map (\<lambda>product. (variable, product))
                        (filter (\<lambda>product. length product = 1 \<and> hd product \<in> variables g)
                                products))
                 (rules g))"

text \<open>
  The loop over \<open>enumerate(unit_pairs)\<close>; \<open>seen\<close> is \<open>unit_pairs[:i]\<close>. The right-hand
  side handed to \<open>add_rule\<close> is the list of another key (\<open>product[0] != variable\<close>), which
  the call does not change while it reads it.
\<close>

fun unit_loop :: "ucd \<Rightarrow> (symbol \<times> production) list \<Rightarrow> (symbol \<times> production) list
                   \<Rightarrow> grammar \<Rightarrow> outcome" where
  "unit_loop db seen [] g = (None, g)"
| "unit_loop db seen ((variable, product) # rest) g =
     (if hd product \<noteq> variable then
        (case map_of (rules g) variable of
           None \<Rightarrow> (Some KeyError, g)
         | Some ps \<Rightarrow>
             if product \<notin> set ps then (Some ValueError, g)
             else
               (case map_of (dict_set (rules g) variable (remove1 product ps)) (hd product) of
                  None \<Rightarrow>
                    (Some KeyError, g\<lparr>rules := dict_set (rules g) variable (remove1 product ps)\<rparr>)
                | Some qs \<Rightarrow>
                    if \<not> list_ex (\<lambda>item. (variable, item) \<in> set seen) qs then
                      (case add_rule db variable qs
                              (g\<lparr>rules := dict_set (rules g) variable (remove1 product ps)\<rparr>) of
                         (Some e, g2) \<Rightarrow> (Some e, g2)
                       | (None, g2) \<Rightarrow> unit_loop db (seen @ [(variable, product)]) rest g2)
                    else
                      unit_loop db (seen @ [(variable, product)]) rest
                        (g\<lparr>rules := dict_set (rules g) variable (remove1 product ps)\<rparr>)))
      else unit_loop db (seen @ [(variable, product)]) rest g)"

definition remove_unit_rules :: "ucd \<Rightarrow> grammar \<Rightarrow> outcome" where
  "remove_unit_rules db g = unit_loop db [] (unit_pairs_of g) g"

section \<open>Stage 4: short productions and isolated terminals\<close>

text \<open>
  \<open>for var, pros in grammar.rules.items(): if new_product == pros: ...; break\<close> finds the
  first key whose whole list equals \<open>new_product\<close>; the \<open>else\<close> of the loop runs when
  there is none.
\<close>

definition find_rule :: "production list \<Rightarrow> rule_map \<Rightarrow> symbol option" where
  "find_rule new_product rs = map_option fst (find (\<lambda>(var, pros). new_product = pros) rs)"

definition fresh_name :: "nat \<Rightarrow> symbol" where
  "fresh_name i = py ''U'' @ str_nat i"

text \<open>
  The \<open>for product in products\<close> loop of the first pass removes from and appends to the
  list it runs over. A Python list iterator is a position \<open>it\<close> into the live list: it
  stops once \<open>it\<close> reaches the current length and otherwise yields the element there.
\<close>

partial_function (option) split_for ::
  "ucd \<Rightarrow> symbol \<Rightarrow> nat \<Rightarrow> nat \<Rightarrow> grammar \<Rightarrow> (error option \<times> grammar \<times> nat) option" where
  "split_for db variable it i g =
     (case map_of (rules g) variable of
        None \<Rightarrow> Some (Some KeyError, g, i)
      | Some products \<Rightarrow>
          if it < length products then
            (if 3 \<le> length (products ! it) then
               (case find_rule [tl (products ! it)]
                       (dict_set (rules g) variable (remove1 (products ! it) products)) of
                  Some var \<Rightarrow>
                    (case add_rule db variable [[hd (products ! it), var]]
                            (g\<lparr>rules := dict_set (rules g) variable
                                           (remove1 (products ! it) products)\<rparr>) of
                       (Some e, g2) \<Rightarrow> Some (Some e, g2, i)
                     | (None, g2) \<Rightarrow> split_for db variable (it + 1) i g2)
                | None \<Rightarrow>
                    (case add_rule db (fresh_name i) [tl (products ! it)]
                            (g\<lparr>rules := dict_set (rules g) variable
                                           (remove1 (products ! it) products)\<rparr>) of
                       (Some e, g2) \<Rightarrow> Some (Some e, g2, i)
                     | (None, g2) \<Rightarrow>
                         (case add_rule db variable [[hd (products ! it), fresh_name i]] g2 of
                            (Some e, g3) \<Rightarrow> Some (Some e, g3, i)
                          | (None, g3) \<Rightarrow> split_for db variable (it + 1) (i + 1) g3)))
             else split_for db variable (it + 1) i g)
          else Some (None, g, i))"

declare split_for.simps [code]

partial_function (option) split_while ::
  "ucd \<Rightarrow> nat \<Rightarrow> nat \<Rightarrow> grammar \<Rightarrow> (error option \<times> grammar \<times> nat) option" where
  "split_while db index i g =
     (if index < length (rules g) then
        (case split_for db (fst (rules g ! index)) 0 i g of
           None \<Rightarrow> None
         | Some (Some e, g1, i1) \<Rightarrow> Some (Some e, g1, i1)
         | Some (None, g1, i1) \<Rightarrow> split_while db (index + 1) i1 g1)
      else Some (None, g, i))"

declare split_while.simps [code]

text \<open>
  \<open>grammar.rules[variable][j] = product\<close>. In the second pass \<open>variable\<close> is a key and
  \<open>j\<close> a position of its list: the pass only appends to lists and replaces elements.
\<close>

definition assign_product :: "grammar \<Rightarrow> symbol \<Rightarrow> nat \<Rightarrow> production \<Rightarrow> grammar" where
  "assign_product g variable j product =
     g\<lparr>rules := map (\<lambda>(var, pros). if var = variable then (var, pros[j := product])
                                    else (var, pros)) (rules g)\<rparr>"

text \<open>
  The two halves of the body of the second pass, for the production at position \<open>j\<close>
  of \<open>variable\<close>: the first symbol, then the second symbol of the production as it stands
  after the first half.
\<close>

definition isolate_first ::
  "ucd \<Rightarrow> symbol \<Rightarrow> nat \<Rightarrow> production \<Rightarrow> nat \<Rightarrow> grammar \<Rightarrow> error option \<times> grammar \<times> nat" where
  "isolate_first db variable j product i g =
     (if product ! 0 \<in> terminals g then
        (case find_rule [[product ! 0]] (rules g) of
           Some var \<Rightarrow> (None, assign_product g variable j [var, product ! 1], i)
         | None \<Rightarrow>
             (case add_rule db (fresh_name i) [[product ! 0]] g of
                (Some e, g1) \<Rightarrow> (Some e, g1, i)
              | (None, g1) \<Rightarrow>
                  (None, assign_product g1 variable j [fresh_name i, product ! 1], i + 1)))
      else (None, g, i))"

definition isolate_second ::
  "ucd \<Rightarrow> symbol \<Rightarrow> nat \<Rightarrow> production \<Rightarrow> nat \<Rightarrow> grammar \<Rightarrow> error option \<times> grammar \<times> nat" where
  "isolate_second db variable j product i g =
     (if product ! 1 \<in> terminals g then
        (case find_rule [[product ! 1]] (rules g) of
           Some var \<Rightarrow> (None, assign_product g variable j [product ! 0, var], i)
         | None \<Rightarrow>
             (case add_rule db (fresh_name i) [[product ! 1]] g of
                (Some e, g1) \<Rightarrow> (Some e, g1, i)
              | (None, g1) \<Rightarrow>
                  (None, assign_product g1 variable j [product ! 0, fresh_name i], i + 1)))
      else (None, g, i))"

partial_function (option) isolate_for ::
  "ucd \<Rightarrow> symbol \<Rightarrow> nat \<Rightarrow> nat \<Rightarrow> grammar \<Rightarrow> (error option \<times> grammar \<times> nat) option" where
  "isolate_for db variable j i g =
     (case map_of (rules g) variable of
        None \<Rightarrow> Some (Some KeyError, g, i)
      | Some products \<Rightarrow>
          if j < length products then
            (if 2 \<le> length (products ! j) then
               (case isolate_first db variable j (products ! j) i g of
                  (Some e, g1, i1) \<Rightarrow> Some (Some e, g1, i1)
                | (None, g1, i1) \<Rightarrow>
                    (case map_of (rules g1) variable of
                       None \<Rightarrow> Some (Some KeyError, g1, i1)
                     | Some products1 \<Rightarrow>
                         (case isolate_second db variable j (products1 ! j) i1 g1 of
                            (Some e, g2, i2) \<Rightarrow> Some (Some e, g2, i2)
                          | (None, g2, i2) \<Rightarrow> isolate_for db variable (j + 1) i2 g2)))
             else isolate_for db variable (j + 1) i g)
          else Some (None, g, i))"

declare isolate_for.simps [code]

partial_function (option) isolate_while ::
  "ucd \<Rightarrow> nat \<Rightarrow> nat \<Rightarrow> grammar \<Rightarrow> (error option \<times> grammar \<times> nat) option" where
  "isolate_while db index i g =
     (if index < length (rules g) then
        (case isolate_for db (fst (rules g ! index)) 0 i g of
           None \<Rightarrow> None
         | Some (Some e, g1, i1) \<Rightarrow> Some (Some e, g1, i1)
         | Some (None, g1, i1) \<Rightarrow> isolate_while db (index + 1) i1 g1)
      else Some (None, g, i))"

declare isolate_while.simps [code]

definition convert_to_proper_form :: "ucd \<Rightarrow> grammar \<Rightarrow> outcome option" where
  "convert_to_proper_form db g =
     (case split_while db 0 1 g of
        None \<Rightarrow> None
      | Some (Some e, g1, i1) \<Rightarrow> Some (Some e, g1)
      | Some (None, g1, i1) \<Rightarrow>
          (case isolate_while db 0 i1 g1 of
             None \<Rightarrow> None
           | Some (e, g2, i2) \<Rightarrow> Some (e, g2)))"

section \<open>The pipeline\<close>

definition main :: "ucd \<Rightarrow> nat list \<Rightarrow> grammar \<Rightarrow> outcome option" where
  "main db sched g =
     (case change_start_variable db g of
        (Some e, g1) \<Rightarrow> Some (Some e, g1)
      | (None, g1) \<Rightarrow>
          (case remove_epsilon_rules sched g1 of
             None \<Rightarrow> None
           | Some (Some e, g2) \<Rightarrow> Some (Some e, g2)
           | Some (None, g2) \<Rightarrow>
               (case remove_unit_rules db g2 of
                  (Some e, g3) \<Rightarrow> (Some (Some e, g3))
                | (None, g3) \<Rightarrow> convert_to_proper_form db g3)))"

section \<open>Grammars used as examples\<close>

text \<open>The grammar \<open>S \<rightarrow> aSb | \<epsilon>\<close> with start \<open>S\<close>.\<close>

definition anbn :: grammar where
  "anbn = \<lparr>variables = {py ''S''}, terminals = {py ''a'', py ''b''},
            rules = [(py ''S'', [[py ''a'', py ''S'', py ''b''], [eps]])],
            start_variable = py ''S''\<rparr>"

text \<open>The chain \<open>A \<rightarrow> B\<close>, \<open>B \<rightarrow> C\<close>, \<open>C \<rightarrow> a\<close> with start \<open>A\<close>.\<close>

definition unit_chain :: grammar where
  "unit_chain = \<lparr>variables = {py ''A'', py ''B'', py ''C''}, terminals = {py ''a''},
                  rules = [(py ''A'', [[py ''B'']]), (py ''B'', [[py ''C'']]),
                           (py ''C'', [[py ''a'']])],
                  start_variable = py ''A''\<rparr>"

text \<open>\<open>S \<rightarrow> AAA | BBB\<close>, \<open>A \<rightarrow> a\<close>, \<open>B \<rightarrow> b\<close> with start \<open>S\<close>.\<close>

definition two_long :: grammar where
  "two_long = \<lparr>variables = {py ''S'', py ''A'', py ''B''}, terminals = {py ''a'', py ''b''},
                rules = [(py ''S'', [[py ''A'', py ''A'', py ''A''], [py ''B'', py ''B'', py ''B'']]),
                         (py ''A'', [[py ''a'']]), (py ''B'', [[py ''b'']])],
                start_variable = py ''S''\<rparr>"

text \<open>\<open>S \<rightarrow> Ab\<close>, \<open>A \<rightarrow> AA | a | \<epsilon>\<close> with start \<open>S\<close>.\<close>

definition self_nullable :: grammar where
  "self_nullable = \<lparr>variables = {py ''S'', py ''A''}, terminals = {py ''a'', py ''b''},
                     rules = [(py ''S'', [[py ''A'', py ''b'']]),
                              (py ''A'', [[py ''A'', py ''A''], [py ''a''], [eps]])],
                     start_variable = py ''S''\<rparr>"

text \<open>\<open>S \<rightarrow> aA | BA\<close>, \<open>B \<rightarrow> a\<close>, \<open>A \<rightarrow> c\<close> with start \<open>S\<close>.\<close>

definition shared_terminal :: grammar where
  "shared_terminal = \<lparr>variables = {py ''S'', py ''A'', py ''B''}, terminals = {py ''a'', py ''c''},
                       rules = [(py ''S'', [[py ''a'', py ''A''], [py ''B'', py ''A'']]),
                                (py ''B'', [[py ''a'']]), (py ''A'', [[py ''c'']])],
                       start_variable = py ''S''\<rparr>"

text \<open>\<open>S \<rightarrow> S0 a | a\<close>, \<open>S0 \<rightarrow> S | b\<close> with start \<open>S\<close>: the name \<open>S0\<close> is in use.\<close>

definition uses_S0 :: grammar where
  "uses_S0 = \<lparr>variables = {py ''S'', py ''S0''}, terminals = {py ''a'', py ''b''},
               rules = [(py ''S'', [[py ''S0'', py ''a''], [py ''a'']]),
                        (py ''S0'', [[py ''S''], [py ''b'']])],
               start_variable = py ''S''\<rparr>"

text \<open>\<open>S \<rightarrow> A | a\<close>, \<open>A \<rightarrow> S | b\<close> with start \<open>S\<close>.\<close>

definition unit_start :: grammar where
  "unit_start = \<lparr>variables = {py ''S'', py ''A''}, terminals = {py ''a'', py ''b''},
                  rules = [(py ''S'', [[py ''A''], [py ''a'']]),
                           (py ''A'', [[py ''S''], [py ''b'']])],
                  start_variable = py ''S''\<rparr>"

text \<open>\<open>S0 \<rightarrow> S\<close>, \<open>S \<rightarrow> aSb | \<epsilon>\<close> with start \<open>S0\<close>: the grammar above with its start isolated.\<close>

definition anbn_isolated :: grammar where
  "anbn_isolated = \<lparr>variables = {py ''S'', py ''S0''}, terminals = {py ''a'', py ''b''},
                     rules = [(py ''S0'', [[py ''S'']]),
                              (py ''S'', [[py ''a'', py ''S'', py ''b''], [eps]])],
                     start_variable = py ''S0''\<rparr>"

text \<open>A Unicode database in which no code point beyond ASCII and U+03B5 is cased or a digit.\<close>

definition ascii_ucd :: ucd where
  "ascii_ucd = (\<lambda>c. Uncased)"

section \<open>Properties read off the rules\<close>

definition occurs_on_rhs :: "symbol \<Rightarrow> grammar \<Rightarrow> bool" where
  "occurs_on_rhs x g = list_ex (\<lambda>(variable, products). list_ex (\<lambda>product. x \<in> set product) products) (rules g)"

definition has_production :: "grammar \<Rightarrow> symbol \<Rightarrow> production \<Rightarrow> bool" where
  "has_production g variable product =
     (case map_of (rules g) variable of None \<Rightarrow> False | Some ps \<Rightarrow> product \<in> set ps)"

definition no_duplicates :: "grammar \<Rightarrow> bool" where
  "no_duplicates g = list_all (\<lambda>(variable, products). distinct products) (rules g)"

text \<open>
  The shape of Chomsky normal form: a production is one terminal, or two variables, or it
  is the epsilon production of the start variable.
\<close>

definition proper_production :: "grammar \<Rightarrow> symbol \<Rightarrow> production \<Rightarrow> bool" where
  "proper_production g variable product =
     ((length product = 1 \<and> hd product \<in> terminals g \<and> product \<noteq> [eps])
      \<or> (length product = 2 \<and> list_all (\<lambda>x. x \<in> variables g) product)
      \<or> (product = [eps] \<and> variable = start_variable g))"

definition proper_form :: "grammar \<Rightarrow> bool" where
  "proper_form g =
     list_all (\<lambda>(variable, products). list_all (proper_production g variable) products) (rules g)"

section \<open>Facts about the dict and the methods of the grammar\<close>

lemma map_of_dict_set: "map_of (dict_set d k v) = (map_of d)(k \<mapsto> v)"
  by (induction d) (auto simp: fun_eq_iff)

lemma keys_dict_set:
  "map fst (dict_set d k v) = (if k \<in> fst ` set d then map fst d else map fst d @ [k])"
  by (induction d) (auto simp: rev_image_eqI)

lemma variables_add_product [simp]:
  "variables (add_product v p g) = insert v (variables g)"
  by (simp add: add_product_def Let_def split: option.splits)

lemma terminals_add_product [simp]:
  "terminals (add_product v p g) = terminals g"
  by (simp add: add_product_def Let_def split: option.splits)

lemma start_add_product [simp]:
  "start_variable (add_product v p g) = start_variable g"
  by (simp add: add_product_def Let_def split: option.splits)

lemma has_production_add_product: "has_production (add_product v p g) v p"
  by (simp add: add_product_def has_production_def Let_def map_of_dict_set split: option.splits)

lemma has_production_add_product_mono:
  "has_production g w q \<Longrightarrow> has_production (add_product v p g) w q"
  by (auto simp: add_product_def has_production_def Let_def map_of_dict_set split: option.splits)

lemma rules_scan_item [simp]: "rules (scan_item db g item) = rules g"
  by (simp add: scan_item_def Let_def)

lemma start_scan_item [simp]: "start_variable (scan_item db g item) = start_variable g"
  by (simp add: scan_item_def Let_def)

lemma variables_scan_item:
  "variables (scan_item db g item) = variables g \<union> {x. x = item \<and> isupper db x}"
  by (auto simp: scan_item_def Let_def)

lemma terminals_scan_item:
  "terminals (scan_item db g item) = terminals g \<union> {x. x = item \<and> (islower db x \<or> x = eps)}"
  by (auto simp: scan_item_def Let_def)

lemma scan_items:
  "rules (foldl (scan_item db) g items) = rules g
   \<and> start_variable (foldl (scan_item db) g items) = start_variable g
   \<and> variables (foldl (scan_item db) g items) = variables g \<union> {x \<in> set items. isupper db x}
   \<and> terminals (foldl (scan_item db) g items)
        = terminals g \<union> {x \<in> set items. islower db x \<or> x = eps}"
  by (induction items arbitrary: g) (auto simp: variables_scan_item terminals_scan_item)

lemma add_rhs_item_effect:
  "variables (add_rhs_item db lhs g rhs_item)
      = insert lhs (variables g \<union> {x \<in> set rhs_item. isupper db x})
   \<and> terminals (add_rhs_item db lhs g rhs_item)
      = terminals g \<union> {x \<in> set rhs_item. islower db x \<or> x = eps}
   \<and> start_variable (add_rhs_item db lhs g rhs_item) = start_variable g
   \<and> has_production (add_rhs_item db lhs g rhs_item) lhs rhs_item"
  by (simp add: add_rhs_item_def scan_items has_production_add_product)

lemma has_production_add_rhs_item_mono:
  "has_production g w q \<Longrightarrow> has_production (add_rhs_item db lhs g rhs_item) w q"
  unfolding add_rhs_item_def
  by (rule has_production_add_product_mono) (simp add: has_production_def scan_items)

lemma add_rhs_items_sets:
  "variables (foldl (add_rhs_item db lhs) g rhs)
      = variables g \<union> {x. x = lhs \<and> rhs \<noteq> []} \<union> {x \<in> \<Union> (set ` set rhs). isupper db x}
   \<and> terminals (foldl (add_rhs_item db lhs) g rhs)
      = terminals g \<union> {x \<in> \<Union> (set ` set rhs). islower db x \<or> x = eps}
   \<and> start_variable (foldl (add_rhs_item db lhs) g rhs) = start_variable g"
proof (induction rhs arbitrary: g)
  case Nil
  then show ?case by simp
next
  case (Cons a rhs)
  show ?case
    by (simp add: Cons.IH add_rhs_item_effect) blast
qed

lemma has_production_add_rhs_items_mono:
  "has_production g w q \<Longrightarrow> has_production (foldl (add_rhs_item db lhs) g rhs) w q"
  by (induction rhs arbitrary: g) (auto intro: has_production_add_rhs_item_mono)

lemma has_production_add_rhs_items:
  "rhs_item \<in> set rhs \<Longrightarrow> has_production (foldl (add_rhs_item db lhs) g rhs) lhs rhs_item"
proof (induction rhs arbitrary: g)
  case Nil
  then show ?case by simp
next
  case (Cons a rhs)
  show ?case
  proof (cases "rhs_item = a")
    case True
    then show ?thesis
      by (simp add: has_production_add_rhs_items_mono add_rhs_item_effect)
  next
    case False
    with Cons show ?thesis by simp
  qed
qed

lemma match_lhs_iff:
  "match_lhs db lhs = (variable_name db lhs \<or> (\<exists>n. lhs = n @ [10] \<and> variable_name db n))"
proof (cases lhs)
  case Nil
  then show ?thesis by (simp add: match_lhs_def variable_name_def)
next
  case (Cons c r)
  have "(r \<noteq> [] \<and> last r = 10 \<and> list_all (\<lambda>d. cat db d = Decimal) (butlast r))
        = (\<exists>r'. r = r' @ [10] \<and> list_all (\<lambda>d. cat db d = Decimal) r')"
  proof
    assume a: "r \<noteq> [] \<and> last r = 10 \<and> list_all (\<lambda>d. cat db d = Decimal) (butlast r)"
    then have "r = butlast r @ [10]" by (metis append_butlast_last_id)
    with a show "\<exists>r'. r = r' @ [10] \<and> list_all (\<lambda>d. cat db d = Decimal) r'" by blast
  next
    assume "\<exists>r'. r = r' @ [10] \<and> list_all (\<lambda>d. cat db d = Decimal) r'"
    then show "r \<noteq> [] \<and> last r = 10 \<and> list_all (\<lambda>d. cat db d = Decimal) (butlast r)" by auto
  qed
  moreover have "(\<exists>n. c # r = n @ [10] \<and> variable_name db n)
        = (65 \<le> c \<and> c \<le> 90 \<and> (\<exists>r'. r = r' @ [10] \<and> list_all (\<lambda>d. cat db d = Decimal) r'))"
  proof
    assume "\<exists>n. c # r = n @ [10] \<and> variable_name db n"
    then obtain n where n: "c # r = n @ [10]" "variable_name db n" by blast
    then obtain r' where "n = c # r'" by (cases n) (auto simp: variable_name_def)
    with n show "65 \<le> c \<and> c \<le> 90 \<and> (\<exists>r'. r = r' @ [10] \<and> list_all (\<lambda>d. cat db d = Decimal) r')"
      by (auto simp: variable_name_def)
  next
    assume a: "65 \<le> c \<and> c \<le> 90 \<and> (\<exists>r'. r = r' @ [10] \<and> list_all (\<lambda>d. cat db d = Decimal) r')"
    then obtain r' where "r = r' @ [10]" "list_all (\<lambda>d. cat db d = Decimal) r'" by blast
    with a have "c # r = (c # r') @ [10] \<and> variable_name db (c # r')"
      by (simp add: variable_name_def)
    then show "\<exists>n. c # r = n @ [10] \<and> variable_name db n" by blast
  qed
  ultimately show ?thesis using Cons by (auto simp: match_lhs_def variable_name_def)
qed

lemma match_lhs_isupper: "match_lhs db lhs \<Longrightarrow> isupper db lhs"
proof -
  assume m: "match_lhs db lhs"
  then obtain c r where lhs: "lhs = c # r" by (cases lhs) (auto simp: match_lhs_def)
  with m have c: "65 \<le> c" "c \<le> 90" by (auto simp: match_lhs_def)
  then have up: "cat db c = Upper" by (simp add: cat_def)
  have "cat db 10 = Uncased" by (simp add: cat_def)
  have r: "list_all (\<lambda>d. cat db d \<noteq> Lower \<and> cat db d \<noteq> Title) r"
  proof -
    from m lhs consider "list_all (\<lambda>d. cat db d = Decimal) r"
      | "r \<noteq> []" "last r = 10" "list_all (\<lambda>d. cat db d = Decimal) (butlast r)"
      by (auto simp: match_lhs_def)
    then show ?thesis
    proof cases
      case 1
      then show ?thesis by (auto simp: list_all_iff)
    next
      case 2
      then have "r = butlast r @ [10]" by (metis append_butlast_last_id)
      moreover have "list_all (\<lambda>d. cat db d \<noteq> Lower \<and> cat db d \<noteq> Title) (butlast r @ [10])"
        using 2(3) \<open>cat db 10 = Uncased\<close> by (auto simp: list_all_iff)
      ultimately show ?thesis by simp
    qed
  qed
  show ?thesis
  proof (cases r)
    case Nil
    with lhs up show ?thesis by (simp add: isupper_def)
  next
    case (Cons d r')
    with lhs up r show ?thesis by (simp add: isupper_def)
  qed
qed

text \<open>
  The check of \<open>add_rule\<close>: it raises exactly when \<open>lhs\<close> is neither a letter from A to Z
  followed by decimal digits nor such a name followed by one newline, it leaves the
  grammar as it was when it raises, and it raises on \<open>s\<close>.
\<close>

lemma add_rule_check:
  "(fst (add_rule db lhs rhs g) = Some InvalidRule)
     = (\<not> (variable_name db lhs \<or> (\<exists>n. lhs = n @ [10] \<and> variable_name db n)))
   \<and> (fst (add_rule db lhs rhs g) = Some InvalidRule \<longrightarrow> snd (add_rule db lhs rhs g) = g)
   \<and> fst (add_rule db (py ''s'') rhs g) = Some InvalidRule"
proof -
  have "\<not> match_lhs db (py ''s'')" by (simp add: match_lhs_def py_def)
  then show ?thesis
    unfolding match_lhs_iff [symmetric] by (simp add: add_rule_def)
qed

section \<open>Facts about the start variable stage\<close>

lemma sort_fold_start:
  "map_of (foldl (\<lambda>new_rules (variable, products).
                    if variable \<noteq> s then dict_set new_rules variable products else new_rules)
                 acc d) s = map_of acc s"
  by (induction d arbitrary: acc) (auto simp: map_of_dict_set)

lemma sort_fold_other:
  "distinct (map fst d) \<Longrightarrow> v \<noteq> s \<Longrightarrow>
   map_of (foldl (\<lambda>new_rules (variable, products).
                    if variable \<noteq> s then dict_set new_rules variable products else new_rules)
                 acc d) v
     = (case map_of d v of Some ps \<Rightarrow> Some ps | None \<Rightarrow> map_of acc v)"
proof (induction d arbitrary: acc)
  case Nil
  then show ?case by simp
next
  case (Cons a d)
  obtain k ps where a: "a = (k, ps)" by (cases a)
  from Cons.prems have d: "distinct (map fst d)" and k: "k \<notin> fst ` set d" by (auto simp: a)
  show ?case
  proof (cases "k = v")
    case True
    with k have "map_of d v = None" by (simp add: map_of_eq_None_iff)
    with True Cons.prems(2) show ?thesis
      by (simp add: a Cons.IH [OF d Cons.prems(2)] map_of_dict_set)
  next
    case False
    then show ?thesis
      by (simp add: a Cons.IH [OF d Cons.prems(2)] map_of_dict_set split: option.splits)
  qed
qed

lemma match_lhs_S0: "match_lhs db (py ''S0'')"
  by (simp add: match_lhs_def py_def cat_def)

lemma rules_add_product_other:
  "w \<noteq> v \<Longrightarrow> map_of (rules (add_product v p g)) w = map_of (rules g) w"
  by (simp add: add_product_def Let_def map_of_dict_set split: option.splits)

lemma keys_add_product:
  "distinct (map fst (rules g)) \<Longrightarrow> distinct (map fst (rules (add_product v p g)))"
  by (auto simp: add_product_def Let_def keys_dict_set split: option.splits)

section \<open>Facts about the epsilon stage\<close>

text \<open>
  A round of the loop keeps the keys of \<open>rules\<close>, only enqueues keys that are not
  visited, and marks the popped variable visited. The number of keys not yet visited
  therefore decreases with every round.
\<close>

text \<open>
  A worklist that is empty ends the loop at once, and from a worklist of one element
  every schedule pops that element.
\<close>

lemma eps_while_empty: "eps_while sched visited [] g = Some (None, g, visited)"
  by (subst eps_while.simps) simp

lemma eps_round_single: "eps_round k visited [v] g = eps_round 0 visited [v] g"
  by (simp add: eps_round_def)

lemma eps_while_single:
  "eps_round 0 visited [v] g = (None, g2, [], visited2) \<Longrightarrow>
   eps_while sched visited [v] g = Some (None, g2, visited2)"
  by (subst eps_while.simps) (simp add: eps_round_single [of "pick sched"] eps_while_empty)

lemma eps_while_single_step:
  "eps_round 0 visited [v] g = (None, g2, nullable2, visited2) \<Longrightarrow>
   eps_while sched visited [v] g = eps_while (tl sched) visited2 nullable2 g2"
  by (subst eps_while.simps) (simp add: eps_round_single [of "pick sched"])

lemma keys_add_product_existing:
  "v \<in> fst ` set (rules g) \<Longrightarrow> map fst (rules (add_product v p g)) = map fst (rules g)"
  by (auto simp: add_product_def Let_def keys_dict_set split: option.splits)

lemma keys_add_products_existing:
  "v \<in> fst ` set (rules g) \<Longrightarrow>
   map fst (rules (foldl (\<lambda>g' product. add_product v product g') g ps)) = map fst (rules g)"
proof (induction ps arbitrary: g)
  case Nil
  then show ?case by simp
next
  case (Cons p ps)
  have k: "map fst (rules (add_product v p g)) = map fst (rules g)"
    using Cons.prems by (rule keys_add_product_existing)
  then have "v \<in> fst ` set (rules (add_product v p g))"
    using Cons.prems by (metis list.set_map)
  from Cons.IH [OF this] k show ?case by simp
qed

lemma keys_replace_products:
  "map fst (rules (snd (replace_products g var ps))) = map fst (rules g)"
proof (cases "map_of (rules g) var")
  case None
  then show ?thesis by (simp add: replace_products_def)
next
  case (Some a)
  then have v: "var \<in> fst ` set (rules g)" by (force dest: map_of_SomeD)
  then have "set (map fst (dict_set (rules g) var [])) = set (map fst (rules g))"
    by (simp add: keys_dict_set)
  with v have "var \<in> fst ` set (rules (g\<lparr>rules := dict_set (rules g) var []\<rparr>))"
    by simp
  from keys_add_products_existing [OF this, of ps] v Some show ?thesis
    by (simp add: replace_products_def keys_dict_set)
qed

lemma eps_for_keys:
  "eps_for variable visited vars g nullable = (e, g', nullable') \<Longrightarrow>
   map fst (rules g') = map fst (rules g)
   \<and> set nullable' \<subseteq> set nullable \<union> (set vars - set visited)"
proof (induction vars arbitrary: g nullable)
  case Nil
  then show ?case by simp
next
  case (Cons var vars)
  show ?case
  proof (cases "map_of (rules g) var")
    case None
    with Cons.prems show ?thesis by auto
  next
    case (Some pros)
    obtain e1 g1 where rp: "replace_products g var (expand_products variable pros) = (e1, g1)"
      by (cases "replace_products g var (expand_products variable pros)")
    have k1: "map fst (rules g1) = map fst (rules g)"
      using keys_replace_products [of g var "expand_products variable pros"] rp by simp
    show ?thesis
    proof (cases e1)
      case (Some err)
      with Cons.prems \<open>map_of (rules g) var = Some pros\<close> rp k1 show ?thesis by auto
    next
      case None
      show ?thesis
      proof (cases "map_of (rules g1) var")
        case None
        with Cons.prems \<open>map_of (rules g) var = Some pros\<close> rp \<open>e1 = None\<close> k1 show ?thesis
          by auto
      next
        case (Some pros1)
        let ?n1 = "if [eps] \<in> set pros1 \<and> var \<notin> set visited then set_add var nullable
                   else nullable"
        have "eps_for variable visited vars g1 ?n1 = (e, g', nullable')"
          using Cons.prems \<open>map_of (rules g) var = Some pros\<close> rp \<open>e1 = None\<close> Some by simp
        from Cons.IH [OF this] k1 show ?thesis
          by (auto simp: set_add_def split: if_splits)
      qed
    qed
  qed
qed

lemma eps_round_inv:
  assumes "eps_round k visited nullable g = (e, g2, nullable2, visited2)"
      and "nullable \<noteq> []"
      and "set nullable \<subseteq> fst ` set (rules g)"
      and "set nullable \<inter> set visited = {}"
      and "distinct visited" and "set visited \<subseteq> fst ` set (rules g)"
  shows "map fst (rules g2) = map fst (rules g)
         \<and> set nullable2 \<subseteq> fst ` set (rules g)
         \<and> set nullable2 \<inter> set visited2 = {}
         \<and> distinct visited2 \<and> set visited2 \<subseteq> fst ` set (rules g)
         \<and> (e = None \<longrightarrow> set visited \<subset> set visited2)"
proof -
  define variable where "variable = nullable ! (k mod length nullable)"
  have vin: "variable \<in> set nullable"
    unfolding variable_def using assms(2) by simp
  then have vk: "variable \<in> fst ` set (rules g)" and vv: "variable \<notin> set visited"
    using assms(3,4) by auto
  show ?thesis
  proof (cases "map_of (rules g) variable")
    case None
    with assms show ?thesis
      by (auto simp: eps_round_def variable_def [symmetric])
  next
    case (Some ps)
    show ?thesis
    proof (cases "[eps] \<in> set ps")
      case False
      with Some assms show ?thesis
        by (auto simp: eps_round_def variable_def [symmetric])
    next
      case True
      let ?g1 = "g\<lparr>rules := dict_set (rules g) variable (remove1 [eps] ps)\<rparr>"
      have k1: "map fst (rules ?g1) = map fst (rules g)"
        using vk by (simp add: keys_dict_set)
      have ef: "eps_for variable (visited @ [variable]) (map fst (rules g)) ?g1
                  (removeAll variable nullable) = (e, g2, nullable2)"
        and v2: "visited2 = visited @ [variable]"
        using assms(1) Some True
        by (auto simp: eps_round_def variable_def [symmetric] split: prod.splits)
      from eps_for_keys [OF ef] k1
      have k2: "map fst (rules g2) = map fst (rules g)"
        and n2: "set nullable2 \<subseteq> set (removeAll variable nullable)
                   \<union> (set (map fst (rules g)) - set (visited @ [variable]))"
        by auto
      from n2 assms(3,4) have "set nullable2 \<subseteq> fst ` set (rules g)"
        and "set nullable2 \<inter> set visited2 = {}"
        unfolding v2 by auto
      moreover have "distinct visited2" "set visited2 \<subseteq> fst ` set (rules g)"
        "set visited \<subset> set visited2"
        using assms(5,6) vv vk unfolding v2 by auto
      ultimately show ?thesis using k2 by simp
    qed
  qed
qed

lemma eps_while_terminates:
  assumes "set nullable \<subseteq> fst ` set (rules g)"
      and "set nullable \<inter> set visited = {}"
      and "distinct visited" and "set visited \<subseteq> fst ` set (rules g)"
  shows "\<exists>e g' vis. eps_while sched visited nullable g = Some (e, g', vis)
           \<and> distinct vis \<and> set vis \<subseteq> fst ` set (rules g)"
  using assms
proof (induction "card (fst ` set (rules g) - set visited)"
        arbitrary: sched visited nullable g rule: less_induct)
  case less
  show ?case
  proof (cases "nullable = []")
    case True
    with less.prems show ?thesis by (subst eps_while.simps) simp
  next
    case False
    obtain e g2 nullable2 visited2
      where r: "eps_round (pick sched) visited nullable g = (e, g2, nullable2, visited2)"
      by (cases "eps_round (pick sched) visited nullable g") auto
    note inv = eps_round_inv [OF r False less.prems]
    show ?thesis
    proof (cases e)
      case (Some err)
      with False r inv show ?thesis by (subst eps_while.simps) simp
    next
      case None
      have keys: "fst ` set (rules g2) = fst ` set (rules g)"
        using inv by (metis list.set_map)
      have "set visited \<subset> set visited2" using inv None by simp
      moreover have "set visited2 \<subseteq> fst ` set (rules g)" using inv by simp
      ultimately have "fst ` set (rules g) - set visited2 \<subset> fst ` set (rules g) - set visited"
        by auto
      then have "card (fst ` set (rules g2) - set visited2)
                  < card (fst ` set (rules g) - set visited)"
        unfolding keys by (intro psubset_card_mono) auto
      from less.hyps [OF this, of nullable2 "tl sched"] inv keys
      obtain e' g' vis where "eps_while (tl sched) visited2 nullable2 g2 = Some (e', g', vis)"
        "distinct vis" "set vis \<subseteq> fst ` set (rules g)"
        by auto
      with False r None show ?thesis by (subst eps_while.simps) simp
    qed
  qed
qed

lemma initial_nullable_keys_aux:
  "set (foldl (\<lambda>s (variable, products). if [eps] \<in> set products then set_add variable s else s)
              acc d) \<subseteq> set acc \<union> fst ` set d"
  by (induction d arbitrary: acc) (force simp: set_add_def split: if_splits)+

lemma initial_nullable_keys: "set (initial_nullable g) \<subseteq> fst ` set (rules g)"
  using initial_nullable_keys_aux [of "[]" "rules g"] by (simp add: initial_nullable_def)

text \<open>
  A variable on the worklist has an epsilon production, and keeps it until it is popped:
  rewriting a list for another variable keeps the epsilon production in it. So no round
  raises, provided the keys of \<open>rules\<close> are pairwise different, as those of a dict are.
\<close>

lemma add_products_same_key:
  "map_of (rules g) var = Some ps \<Longrightarrow>
   \<exists>ps'. map_of (rules (foldl (\<lambda>g' product. add_product var product g') g new)) var = Some ps'
         \<and> set ps' = set ps \<union> set new"
proof (induction new arbitrary: g ps)
  case Nil
  then show ?case by simp
next
  case (Cons p new)
  have "\<exists>qs. map_of (rules (add_product var p g)) var = Some qs \<and> set qs = insert p (set ps)"
    using Cons.prems by (auto simp: add_product_def Let_def map_of_dict_set)
  then obtain qs where qs: "map_of (rules (add_product var p g)) var = Some qs"
    "set qs = insert p (set ps)" by blast
  from Cons.IH [OF qs(1), of ] qs(2) show ?case by auto
qed

lemma add_products_other_key:
  "w \<noteq> var \<Longrightarrow>
   map_of (rules (foldl (\<lambda>g' product. add_product var product g') g new)) w = map_of (rules g) w"
  by (induction new arbitrary: g) (simp_all add: rules_add_product_other)

lemma replace_products_ok:
  assumes "map_of (rules g) var = Some ps"
  shows "\<exists>g1 ps1. replace_products g var new = (None, g1)
           \<and> map_of (rules g1) var = Some ps1 \<and> set ps1 = set new
           \<and> (\<forall>w. w \<noteq> var \<longrightarrow> map_of (rules g1) w = map_of (rules g) w)"
proof -
  let ?g0 = "g\<lparr>rules := dict_set (rules g) var []\<rparr>"
  have 0: "map_of (rules ?g0) var = Some []" by (simp add: map_of_dict_set)
  from add_products_same_key [OF 0, of new]
  obtain ps1 where "map_of (rules (foldl (\<lambda>g' product. add_product var product g') ?g0 new)) var
      = Some ps1" "set ps1 = set new" by auto
  moreover have "\<forall>w. w \<noteq> var \<longrightarrow>
      map_of (rules (foldl (\<lambda>g' product. add_product var product g') ?g0 new)) w
        = map_of (rules g) w"
    by (simp add: add_products_other_key map_of_dict_set)
  ultimately show ?thesis using assms by (simp add: replace_products_def)
qed

lemma generate_combinations_eps: "generate_combinations [eps] eps = [[eps], [eps]]"
  by code_simp

lemma expand_products_keeps_eps:
  "[eps] \<in> set pros \<Longrightarrow> [eps] \<in> set (expand_products variable pros)"
proof -
  assume a: "[eps] \<in> set pros"
  have "[eps] \<in> set (if variable \<in> set [eps] then generate_combinations [eps] variable
                       else [[eps]])"
    by (auto simp: generate_combinations_eps)
  with a show ?thesis unfolding expand_products_def by auto
qed

lemma eps_for_ok:
  assumes "set vars \<subseteq> fst ` set (rules g)"
      and "list_all (\<lambda>v. has_production g v [eps]) nullable"
  shows "\<exists>g' nullable'. eps_for variable visited vars g nullable = (None, g', nullable')
           \<and> list_all (\<lambda>v. has_production g' v [eps]) nullable'"
  using assms
proof (induction vars arbitrary: g nullable)
  case Nil
  then show ?case by simp
next
  case (Cons var vars)
  from Cons.prems(1) obtain pros where pros: "map_of (rules g) var = Some pros"
    by (cases "map_of (rules g) var") (auto simp: map_of_eq_None_iff)
  from replace_products_ok [OF pros, of "expand_products variable pros"]
  obtain g1 pros1 where rp: "replace_products g var (expand_products variable pros) = (None, g1)"
    and p1: "map_of (rules g1) var = Some pros1"
    and s1: "set pros1 = set (expand_products variable pros)"
    and o1: "\<forall>w. w \<noteq> var \<longrightarrow> map_of (rules g1) w = map_of (rules g) w"
    by blast
  have k1: "map fst (rules g1) = map fst (rules g)"
    using keys_replace_products [of g var "expand_products variable pros"] rp by simp
  have keep: "has_production g1 v [eps]" if "has_production g v [eps]" for v
  proof (cases "v = var")
    case True
    with that pros have "[eps] \<in> set pros" by (simp add: has_production_def)
    then show ?thesis using True p1 s1 by (simp add: has_production_def expand_products_keeps_eps)
  next
    case False
    with that o1 show ?thesis by (simp add: has_production_def)
  qed
  let ?n1 = "if [eps] \<in> set pros1 \<and> var \<notin> set visited then set_add var nullable else nullable"
  have hv: "has_production g1 var [eps]" if "[eps] \<in> set pros1"
    using that p1 by (simp add: has_production_def)
  have "\<forall>v \<in> set nullable. has_production g1 v [eps]"
    using Cons.prems(2) keep by (simp add: list_all_iff)
  then have "list_all (\<lambda>v. has_production g1 v [eps]) ?n1"
    using hv by (auto simp: list_all_iff set_add_def)
  moreover have "set vars \<subseteq> fst ` set (rules g1)"
    using Cons.prems(1) k1 by (metis list.set_map set_subset_Cons subset_trans)
  ultimately obtain g' nullable' where "eps_for variable visited vars g1 ?n1 = (None, g', nullable')"
    "list_all (\<lambda>v. has_production g' v [eps]) nullable'"
    using Cons.IH by blast
  with pros rp p1 show ?case by simp
qed

lemma eps_round_ok:
  assumes "nullable \<noteq> []" and "list_all (\<lambda>v. has_production g v [eps]) nullable"
  shows "\<exists>g2 nullable2 visited2. eps_round k visited nullable g = (None, g2, nullable2, visited2)
           \<and> list_all (\<lambda>v. has_production g2 v [eps]) nullable2"
proof -
  define variable where "variable = nullable ! (k mod length nullable)"
  have "variable \<in> set nullable" unfolding variable_def using assms(1) by simp
  with assms(2) have "has_production g variable [eps]" by (simp add: list_all_iff)
  then obtain ps where ps: "map_of (rules g) variable = Some ps" "[eps] \<in> set ps"
    by (auto simp: has_production_def split: option.splits)
  let ?g1 = "g\<lparr>rules := dict_set (rules g) variable (remove1 [eps] ps)\<rparr>"
  have "variable \<in> fst ` set (rules g)" using ps(1) by (force dest: map_of_SomeD)
  then have k1: "map fst (rules ?g1) = map fst (rules g)" by (simp add: keys_dict_set)
  have "list_all (\<lambda>v. has_production ?g1 v [eps]) (removeAll variable nullable)"
    using assms(2) by (auto simp: list_all_iff has_production_def map_of_dict_set)
  moreover have "set (map fst (rules g)) \<subseteq> fst ` set (rules ?g1)"
    using k1 by (metis list.set_map subset_refl)
  ultimately obtain g2 nullable2 where
    "eps_for variable (visited @ [variable]) (map fst (rules g)) ?g1 (removeAll variable nullable)
       = (None, g2, nullable2)" "list_all (\<lambda>v. has_production g2 v [eps]) nullable2"
    using eps_for_ok by blast
  with ps show ?thesis by (simp add: eps_round_def variable_def [symmetric])
qed

lemma eps_while_returns:
  assumes "eps_while sched visited nullable g = Some (e, g', vis)"
      and "list_all (\<lambda>v. has_production g v [eps]) nullable"
      and "set nullable \<subseteq> fst ` set (rules g)"
      and "set nullable \<inter> set visited = {}"
      and "distinct visited" and "set visited \<subseteq> fst ` set (rules g)"
  shows "e = None"
  using assms
proof (induction "card (fst ` set (rules g) - set visited)"
        arbitrary: sched visited nullable g rule: less_induct)
  case less
  show ?case
  proof (cases "nullable = []")
    case True
    with less.prems(1) show ?thesis by (simp add: eps_while_empty)
  next
    case False
    from eps_round_ok [OF False less.prems(2)]
    obtain g2 nullable2 visited2
      where r: "eps_round (pick sched) visited nullable g = (None, g2, nullable2, visited2)"
        and h2: "list_all (\<lambda>v. has_production g2 v [eps]) nullable2"
      by blast
    note inv = eps_round_inv [OF r False less.prems(3-6)]
    have keys: "fst ` set (rules g2) = fst ` set (rules g)"
      using inv by (metis list.set_map)
    have "set visited \<subset> set visited2" using inv by simp
    moreover have "set visited2 \<subseteq> fst ` set (rules g)" using inv by simp
    ultimately have "fst ` set (rules g) - set visited2 \<subset> fst ` set (rules g) - set visited"
      by auto
    then have m: "card (fst ` set (rules g2) - set visited2)
                < card (fst ` set (rules g) - set visited)"
      unfolding keys by (intro psubset_card_mono) auto
    have "eps_while sched visited nullable g = eps_while (tl sched) visited2 nullable2 g2"
      by (subst eps_while.simps) (simp add: False r)
    with less.prems(1) have w: "eps_while (tl sched) visited2 nullable2 g2 = Some (e, g', vis)"
      by simp
    from less.hyps [OF m w h2] inv keys show ?thesis by simp
  qed
qed

lemma initial_nullable_from_rules:
  "set (foldl (\<lambda>s (variable, products). if [eps] \<in> set products then set_add variable s else s)
              acc d) \<subseteq> set acc \<union> {v. \<exists>ps. (v, ps) \<in> set d \<and> [eps] \<in> set ps}"
proof (induction d arbitrary: acc)
  case Nil
  then show ?case by simp
next
  case (Cons a d)
  obtain v ps where a: "a = (v, ps)" by (cases a)
  show ?case
  proof (cases "[eps] \<in> set ps")
    case True
    have "set (set_add v acc) \<subseteq> insert v (set acc)" by (auto simp: set_add_def)
    with Cons.IH [of "set_add v acc"] True show ?thesis
      unfolding a by (simp add: subset_iff) blast
  next
    case False
    with Cons.IH [of acc] show ?thesis
      unfolding a by (simp add: subset_iff) blast
  qed
qed

lemma initial_nullable_eps:
  assumes "distinct (map fst (rules g))"
  shows "list_all (\<lambda>v. has_production g v [eps]) (initial_nullable g)"
proof -
  have "set (initial_nullable g) \<subseteq> {v. \<exists>ps. (v, ps) \<in> set (rules g) \<and> [eps] \<in> set ps}"
    using initial_nullable_from_rules [of "[]" "rules g"] by (simp add: initial_nullable_def)
  moreover have "has_production g v [eps]" if "(v, ps) \<in> set (rules g)" "[eps] \<in> set ps" for v ps
    using that assms by (simp add: has_production_def)
  ultimately show ?thesis by (auto simp: list_all_iff)
qed

section \<open>Production lists without repetitions\<close>

text \<open>
  \<open>add_product\<close> appends a production only when the list does not have it, and the first
  three stages change the lists through it or by removing an element. They keep every
  list free of repetitions.
\<close>

lemma list_all_dict_set: "list_all P d \<Longrightarrow> P (k, v) \<Longrightarrow> list_all P (dict_set d k v)"
  by (induction d) auto

lemma no_duplicates_lookup:
  "no_duplicates g \<Longrightarrow> map_of (rules g) v = Some ps \<Longrightarrow> distinct ps"
  by (auto simp: no_duplicates_def list_all_iff dest: map_of_SomeD)

lemma no_duplicates_set_rules:
  "no_duplicates g \<Longrightarrow> distinct ps \<Longrightarrow> no_duplicates (g\<lparr>rules := dict_set (rules g) v ps\<rparr>)"
  by (simp add: no_duplicates_def list_all_dict_set)

lemma no_duplicates_add_product: "no_duplicates g \<Longrightarrow> no_duplicates (add_product v p g)"
proof -
  assume a: "no_duplicates g"
  let ?g1 = "g\<lparr>variables := insert v (variables g)\<rparr>"
  have 1: "no_duplicates ?g1" using a by (simp add: no_duplicates_def)
  show ?thesis
  proof (cases "map_of (rules g) v")
    case None
    with no_duplicates_set_rules [OF 1, of "[p]" v] show ?thesis
      by (simp add: add_product_def Let_def)
  next
    case (Some ps)
    with a have d: "distinct ps" by (rule no_duplicates_lookup)
    show ?thesis
    proof (cases "p \<in> set ps")
      case True
      with Some 1 show ?thesis by (simp add: add_product_def Let_def)
    next
      case False
      with d have "distinct (ps @ [p])" by simp
      from no_duplicates_set_rules [OF 1 this, of v] Some False show ?thesis
        by (simp add: add_product_def Let_def)
    qed
  qed
qed

lemma no_duplicates_add_rhs_item:
  "no_duplicates g \<Longrightarrow> no_duplicates (add_rhs_item db lhs g rhs_item)"
  unfolding add_rhs_item_def
  by (rule no_duplicates_add_product) (simp add: no_duplicates_def scan_items)

lemma no_duplicates_add_rule:
  "no_duplicates g \<Longrightarrow> no_duplicates (snd (add_rule db lhs rhs g))"
proof -
  have "no_duplicates g \<Longrightarrow> no_duplicates (foldl (add_rhs_item db lhs) g rhs)" for g
    by (induction rhs arbitrary: g) (simp_all add: no_duplicates_add_rhs_item)
  then show "no_duplicates g \<Longrightarrow> no_duplicates (snd (add_rule db lhs rhs g))"
    by (simp add: add_rule_def)
qed

lemma no_duplicates_sort_rules:
  "no_duplicates g \<Longrightarrow> no_duplicates (snd (sort_rules g))"
proof -
  assume a: "no_duplicates g"
  have f: "list_all (\<lambda>(variable, products). distinct products) acc \<Longrightarrow>
        list_all (\<lambda>(variable, products). distinct products) d \<Longrightarrow>
        list_all (\<lambda>(variable, products). distinct products)
          (foldl (\<lambda>new_rules (variable, products).
                    if variable \<noteq> s then dict_set new_rules variable products else new_rules)
                 acc d)" for acc d s
    by (induction d arbitrary: acc) (auto simp: list_all_dict_set)
  show ?thesis
  proof (cases "map_of (rules g) (start_variable g)")
    case None
    with a show ?thesis by (simp add: sort_rules_def)
  next
    case (Some ps)
    with a have "distinct ps" by (rule no_duplicates_lookup)
    with a Some f [of "[(start_variable g, ps)]" "rules g" "start_variable g"] show ?thesis
      by (simp add: sort_rules_def no_duplicates_def)
  qed
qed

lemma no_duplicates_change_start_variable:
  "no_duplicates g \<Longrightarrow> no_duplicates (snd (change_start_variable db g))"
proof -
  assume a: "no_duplicates g"
  show ?thesis
  proof (cases "start_is_production g")
    case False
    with a show ?thesis by (simp add: change_start_variable_def)
  next
    case True
    obtain e g1 where r: "add_rule db (py ''S0'') [[start_variable g]] g = (e, g1)"
      by (cases "add_rule db (py ''S0'') [[start_variable g]] g")
    with no_duplicates_add_rule [OF a, of db "py ''S0''" "[[start_variable g]]"]
    have 1: "no_duplicates g1" by simp
    then have "no_duplicates (g1\<lparr>start_variable := py ''S0''\<rparr>)" by (simp add: no_duplicates_def)
    from no_duplicates_sort_rules [OF this] 1 True r show ?thesis
      by (cases e) (simp_all add: change_start_variable_def)
  qed
qed

lemma no_duplicates_replace_products:
  "no_duplicates g \<Longrightarrow> no_duplicates (snd (replace_products g var new))"
proof -
  assume a: "no_duplicates g"
  have f: "no_duplicates g \<Longrightarrow>
           no_duplicates (foldl (\<lambda>g' product. add_product var product g') g new)" for g
    by (induction new arbitrary: g) (simp_all add: no_duplicates_add_product)
  show ?thesis
  proof (cases "map_of (rules g) var")
    case None
    with a show ?thesis by (simp add: replace_products_def)
  next
    case (Some ps)
    with f [OF no_duplicates_set_rules [OF a, of "[]" var]] show ?thesis
      by (simp add: replace_products_def)
  qed
qed

lemma no_duplicates_eps_for:
  "no_duplicates g \<Longrightarrow> eps_for variable visited vars g nullable = (e, g', nullable') \<Longrightarrow>
   no_duplicates g'"
proof (induction vars arbitrary: g nullable)
  case Nil
  then show ?case by simp
next
  case (Cons var vars)
  show ?case
  proof (cases "map_of (rules g) var")
    case None
    with Cons.prems show ?thesis by simp
  next
    case (Some pros)
    obtain e1 g1 where rp: "replace_products g var (expand_products variable pros) = (e1, g1)"
      by (cases "replace_products g var (expand_products variable pros)")
    with no_duplicates_replace_products [OF Cons.prems(1), of var "expand_products variable pros"]
    have 1: "no_duplicates g1" by simp
    show ?thesis
    proof (cases e1)
      case (Some err)
      with Cons.prems \<open>map_of (rules g) var = Some pros\<close> rp 1 show ?thesis by simp
    next
      case None
      show ?thesis
      proof (cases "map_of (rules g1) var")
        case None
        with Cons.prems \<open>map_of (rules g) var = Some pros\<close> rp \<open>e1 = None\<close> 1 show ?thesis
          by simp
      next
        case (Some pros1)
        with Cons.prems \<open>map_of (rules g) var = Some pros\<close> rp \<open>e1 = None\<close>
          Cons.IH [OF 1] show ?thesis by simp
      qed
    qed
  qed
qed

lemma no_duplicates_eps_round:
  "no_duplicates g \<Longrightarrow> eps_round k visited nullable g = (e, g2, nullable2, visited2) \<Longrightarrow>
   no_duplicates g2"
proof -
  assume a: "no_duplicates g" and r: "eps_round k visited nullable g = (e, g2, nullable2, visited2)"
  define variable where "variable = nullable ! (k mod length nullable)"
  show ?thesis
  proof (cases "map_of (rules g) variable")
    case None
    with a r show ?thesis by (simp add: eps_round_def variable_def [symmetric])
  next
    case (Some ps)
    show ?thesis
    proof (cases "[eps] \<in> set ps")
      case False
      with a r Some show ?thesis by (simp add: eps_round_def variable_def [symmetric])
    next
      case True
      from a Some have "distinct (remove1 [eps] ps)" by (simp add: no_duplicates_lookup)
      from no_duplicates_set_rules [OF a this, of variable] r Some True show ?thesis
        by (auto simp: eps_round_def variable_def [symmetric] split: prod.splits
                 dest: no_duplicates_eps_for)
    qed
  qed
qed

lemma no_duplicates_eps_while:
  assumes "eps_while sched visited nullable g = Some r"
  shows "no_duplicates g \<longrightarrow> no_duplicates (fst (snd r))"
proof (rule eps_while.raw_induct
         [where P = "\<lambda>sched visited nullable g r. no_duplicates g \<longrightarrow> no_duplicates (fst (snd r))",
          OF _ assms])
  fix f sched visited nullable g r
  assume ih: "\<And>sched visited nullable g r. f sched visited nullable g = Some r \<Longrightarrow>
                no_duplicates g \<longrightarrow> no_duplicates (fst (snd r))"
    and body: "(if nullable = [] then Some (None, g, visited)
                else case eps_round (pick sched) visited nullable g of
                       (None, g2, nullable2, visited2) \<Rightarrow> f (tl sched) visited2 nullable2 g2
                     | (Some e, g2, nullable2, visited2) \<Rightarrow> Some (Some e, g2, visited2))
               = Some r"
  show "no_duplicates g \<longrightarrow> no_duplicates (fst (snd r))"
  proof
    assume nd: "no_duplicates g"
    show "no_duplicates (fst (snd r))"
    proof (cases "nullable = []")
      case True
      with body nd show ?thesis by auto
    next
      case False
      obtain e g2 nullable2 visited2
        where r: "eps_round (pick sched) visited nullable g = (e, g2, nullable2, visited2)"
        by (cases "eps_round (pick sched) visited nullable g") auto
      from no_duplicates_eps_round [OF nd r] have 2: "no_duplicates g2" .
      show ?thesis
      proof (cases e)
        case None
        with body False r have "f (tl sched) visited2 nullable2 g2 = Some r" by simp
        from ih [OF this] 2 show ?thesis by simp
      next
        case (Some err)
        with body False r 2 show ?thesis by auto
      qed
    qed
  qed
qed

lemma no_duplicates_remove_epsilon_rules:
  "remove_epsilon_rules sched g = Some (e, g') \<Longrightarrow> no_duplicates g \<Longrightarrow> no_duplicates g'"
  by (auto simp: remove_epsilon_rules_def dest: no_duplicates_eps_while)

lemma no_duplicates_unit_loop:
  "no_duplicates g \<Longrightarrow> no_duplicates (snd (unit_loop db seen pairs g))"
proof (induction pairs arbitrary: seen g)
  case Nil
  then show ?case by simp
next
  case (Cons a pairs)
  obtain variable product where a: "a = (variable, product)" by (cases a)
  show ?case
  proof (cases "hd product \<noteq> variable")
    case False
    with Cons show ?thesis by (simp add: a)
  next
    case True
    show ?thesis
    proof (cases "map_of (rules g) variable")
      case None
      with True Cons.prems show ?thesis by (simp add: a)
    next
      case (Some ps)
      show ?thesis
      proof (cases "product \<in> set ps")
        case False
        with True Some Cons.prems show ?thesis by (simp add: a)
      next
        case mem: True
        let ?g1 = "g\<lparr>rules := dict_set (rules g) variable (remove1 product ps)\<rparr>"
        from Cons.prems Some have "distinct (remove1 product ps)"
          by (simp add: no_duplicates_lookup)
        from no_duplicates_set_rules [OF Cons.prems this, of variable]
        have 1: "no_duplicates ?g1" .
        show ?thesis
        proof (cases "map_of (dict_set (rules g) variable (remove1 product ps)) (hd product)")
          case None
          with True Some mem 1 show ?thesis by (simp add: a)
        next
          case qs: (Some qs)
          show ?thesis
          proof (cases "list_ex (\<lambda>item. (variable, item) \<in> set seen) qs")
            case True
            with \<open>hd product \<noteq> variable\<close> Some mem qs Cons.IH [OF 1] show ?thesis
              by (simp add: a)
          next
            case False
            obtain e g2 where r: "add_rule db variable qs ?g1 = (e, g2)"
              by (cases "add_rule db variable qs ?g1")
            with no_duplicates_add_rule [OF 1, of db variable qs] have 2: "no_duplicates g2"
              by simp
            show ?thesis
            proof (cases e)
              case None
              with \<open>hd product \<noteq> variable\<close> Some mem qs False r Cons.IH [OF 2] show ?thesis
                by (simp add: a)
            next
              case (Some err)
              with \<open>hd product \<noteq> variable\<close> \<open>map_of (rules g) variable = Some ps\<close> mem qs False r 2
              show ?thesis by (simp add: a)
            qed
          qed
        qed
      qed
    qed
  qed
qed

lemma no_duplicates_remove_unit_rules:
  "no_duplicates g \<Longrightarrow> no_duplicates (snd (remove_unit_rules db g))"
  by (simp add: remove_unit_rules_def no_duplicates_unit_loop)

section \<open>The pipeline on the example grammars\<close>

text \<open>The example grammars are what the constructor builds.\<close>

lemma examples_constructed:
  "ContextFreeGrammar [py ''S''] [py ''a'', py ''b'']
     [(py ''S'', [[py ''a'', py ''S'', py ''b''], [eps]])] (py ''S'') = (None, anbn)"
  "ContextFreeGrammar [py ''A'', py ''B'', py ''C''] [py ''a'']
     [(py ''A'', [[py ''B'']]), (py ''B'', [[py ''C'']]), (py ''C'', [[py ''a'']])] (py ''A'')
     = (None, unit_chain)"
  "ContextFreeGrammar [py ''S'', py ''A'', py ''B''] [py ''a'', py ''b'']
     [(py ''S'', [[py ''A'', py ''A'', py ''A''], [py ''B'', py ''B'', py ''B'']]),
      (py ''A'', [[py ''a'']]), (py ''B'', [[py ''b'']])] (py ''S'') = (None, two_long)"
  "ContextFreeGrammar [py ''S'', py ''A''] [py ''a'', py ''b'']
     [(py ''S'', [[py ''A'', py ''b'']]),
      (py ''A'', [[py ''A'', py ''A''], [py ''a''], [eps]])] (py ''S'') = (None, self_nullable)"
  "ContextFreeGrammar [py ''S'', py ''A'', py ''B''] [py ''a'', py ''c'']
     [(py ''S'', [[py ''a'', py ''A''], [py ''B'', py ''A'']]),
      (py ''B'', [[py ''a'']]), (py ''A'', [[py ''c'']])] (py ''S'') = (None, shared_terminal)"
  "ContextFreeGrammar [py ''S'', py ''S0''] [py ''a'', py ''b'']
     [(py ''S'', [[py ''S0'', py ''a''], [py ''a'']]),
      (py ''S0'', [[py ''S''], [py ''b'']])] (py ''S'') = (None, uses_S0)"
  "ContextFreeGrammar [py ''S'', py ''A''] [py ''a'', py ''b'']
     [(py ''S'', [[py ''A''], [py ''a'']]),
      (py ''A'', [[py ''S''], [py ''b'']])] (py ''S'') = (None, unit_start)"
  by code_simp+

lemma remove_epsilon_rules_anbn:
  "remove_epsilon_rules sched anbn =
     Some (None, \<lparr>variables = {py ''S''}, terminals = {py ''a'', py ''b''},
                  rules = [(py ''S'', [[py ''a'', py ''b''], [py ''a'', py ''S'', py ''b'']])],
                  start_variable = py ''S''\<rparr>)"
proof -
  have n: "initial_nullable anbn = [py ''S'']" by code_simp
  have "eps_round 0 [] [py ''S''] anbn =
     (None, \<lparr>variables = {py ''S''}, terminals = {py ''a'', py ''b''},
                  rules = [(py ''S'', [[py ''a'', py ''b''], [py ''a'', py ''S'', py ''b'']])],
                  start_variable = py ''S''\<rparr>, [], [py ''S''])"
    by code_simp
  from eps_while_single [OF this] n show ?thesis
    by (simp add: remove_epsilon_rules_def)
qed

lemma main_anbn:
  "main db sched anbn =
     Some (None, \<lparr>variables = {py ''U3'', py ''U2'', py ''U1'', py ''S''},
                  terminals = {py ''a'', py ''b''},
                  rules = [(py ''S'', [[py ''U2'', py ''U3''], [py ''U2'', py ''U1'']]),
                           (py ''U1'', [[py ''S'', py ''U3'']]),
                           (py ''U2'', [[py ''a'']]), (py ''U3'', [[py ''b'']])],
                  start_variable = py ''S''\<rparr>)"
proof -
  have 1: "change_start_variable db anbn = (None, anbn)" by code_simp
  have 3: "remove_unit_rules db \<lparr>variables = {py ''S''}, terminals = {py ''a'', py ''b''},
                  rules = [(py ''S'', [[py ''a'', py ''b''], [py ''a'', py ''S'', py ''b'']])],
                  start_variable = py ''S''\<rparr>
         = (None, \<lparr>variables = {py ''S''}, terminals = {py ''a'', py ''b''},
                  rules = [(py ''S'', [[py ''a'', py ''b''], [py ''a'', py ''S'', py ''b'']])],
                  start_variable = py ''S''\<rparr>)"
    by code_simp
  have 4: "convert_to_proper_form db \<lparr>variables = {py ''S''}, terminals = {py ''a'', py ''b''},
                  rules = [(py ''S'', [[py ''a'', py ''b''], [py ''a'', py ''S'', py ''b'']])],
                  start_variable = py ''S''\<rparr>
         = Some (None, \<lparr>variables = {py ''U3'', py ''U2'', py ''U1'', py ''S''},
                  terminals = {py ''a'', py ''b''},
                  rules = [(py ''S'', [[py ''U2'', py ''U3''], [py ''U2'', py ''U1'']]),
                           (py ''U1'', [[py ''S'', py ''U3'']]),
                           (py ''U2'', [[py ''a'']]), (py ''U3'', [[py ''b'']])],
                  start_variable = py ''S''\<rparr>)"
    by code_simp
  show ?thesis
    unfolding main_def 1 by (simp add: remove_epsilon_rules_anbn 3 4)
qed

lemma remove_epsilon_rules_no_nullable:
  "initial_nullable g = [] \<Longrightarrow> remove_epsilon_rules sched g = Some (None, g)"
  by (simp add: remove_epsilon_rules_def eps_while_empty)

lemma main_two_long:
  "main db sched two_long =
     Some (None, \<lparr>variables = {py ''U1'', py ''S'', py ''A'', py ''B''},
                  terminals = {py ''a'', py ''b''},
                  rules = [(py ''S'', [[py ''B'', py ''B'', py ''B''], [py ''A'', py ''U1'']]),
                           (py ''A'', [[py ''a'']]), (py ''B'', [[py ''b'']]),
                           (py ''U1'', [[py ''A'', py ''A'']])],
                  start_variable = py ''S''\<rparr>)"
proof -
  have 1: "change_start_variable db two_long = (None, two_long)" by code_simp
  have "initial_nullable two_long = []" by code_simp
  then have 2: "remove_epsilon_rules sched two_long = Some (None, two_long)"
    by (rule remove_epsilon_rules_no_nullable)
  have 3: "remove_unit_rules db two_long = (None, two_long)" by code_simp
  have 4: "convert_to_proper_form db two_long
         = Some (None, \<lparr>variables = {py ''U1'', py ''S'', py ''A'', py ''B''},
                  terminals = {py ''a'', py ''b''},
                  rules = [(py ''S'', [[py ''B'', py ''B'', py ''B''], [py ''A'', py ''U1'']]),
                           (py ''A'', [[py ''a'']]), (py ''B'', [[py ''b'']]),
                           (py ''U1'', [[py ''A'', py ''A'']])],
                  start_variable = py ''S''\<rparr>)"
    by code_simp
  show ?thesis
    unfolding main_def 1 by (simp add: 2 3 4)
qed

lemma remove_epsilon_rules_self_nullable:
  "remove_epsilon_rules sched self_nullable =
     Some (None, \<lparr>variables = {py ''S'', py ''A''}, terminals = {py ''a'', py ''b''},
                  rules = [(py ''S'', [[py ''b''], [py ''A'', py ''b'']]),
                           (py ''A'', [[eps], [py ''A''], [py ''A'', py ''A''], [py ''a'']])],
                  start_variable = py ''S''\<rparr>)"
proof -
  have n: "initial_nullable self_nullable = [py ''A'']" by code_simp
  have "eps_round 0 [] [py ''A''] self_nullable =
     (None, \<lparr>variables = {py ''S'', py ''A''}, terminals = {py ''a'', py ''b''},
                  rules = [(py ''S'', [[py ''b''], [py ''A'', py ''b'']]),
                           (py ''A'', [[eps], [py ''A''], [py ''A'', py ''A''], [py ''a'']])],
                  start_variable = py ''S''\<rparr>, [], [py ''A''])"
    by code_simp
  from eps_while_single [OF this] n show ?thesis
    by (simp add: remove_epsilon_rules_def)
qed

text \<open>
  The epsilon stage treats the start variable like any other: with the start isolated
  as \<open>S0 \<rightarrow> S\<close>, the round of \<open>S\<close> gives \<open>S0\<close> an epsilon production and enqueues \<open>S0\<close>,
  and the round of \<open>S0\<close> removes it.
\<close>

lemma remove_epsilon_rules_anbn_isolated:
  "remove_epsilon_rules sched anbn_isolated =
     Some (None, \<lparr>variables = {py ''S'', py ''S0''}, terminals = {py ''a'', py ''b''},
                  rules = [(py ''S0'', [[py ''S'']]),
                           (py ''S'', [[py ''a'', py ''b''], [py ''a'', py ''S'', py ''b'']])],
                  start_variable = py ''S0''\<rparr>)"
proof -
  have n: "initial_nullable anbn_isolated = [py ''S'']" by code_simp
  have 1: "eps_round 0 [] [py ''S''] anbn_isolated =
     (None, \<lparr>variables = {py ''S'', py ''S0''}, terminals = {py ''a'', py ''b''},
             rules = [(py ''S0'', [[eps], [py ''S'']]),
                      (py ''S'', [[py ''a'', py ''b''], [py ''a'', py ''S'', py ''b'']])],
             start_variable = py ''S0''\<rparr>, [py ''S0''], [py ''S''])"
    by code_simp
  have 2: "eps_round 0 [py ''S''] [py ''S0'']
             \<lparr>variables = {py ''S'', py ''S0''}, terminals = {py ''a'', py ''b''},
              rules = [(py ''S0'', [[eps], [py ''S'']]),
                       (py ''S'', [[py ''a'', py ''b''], [py ''a'', py ''S'', py ''b'']])],
              start_variable = py ''S0''\<rparr> =
     (None, \<lparr>variables = {py ''S'', py ''S0''}, terminals = {py ''a'', py ''b''},
             rules = [(py ''S0'', [[py ''S'']]),
                      (py ''S'', [[py ''a'', py ''b''], [py ''a'', py ''S'', py ''b'']])],
             start_variable = py ''S0''\<rparr>, [], [py ''S'', py ''S0''])"
    by code_simp
  show ?thesis
    unfolding remove_epsilon_rules_def n eps_while_single_step [OF 1] eps_while_single [OF 2]
    by simp
qed

lemma remove_unit_rules_chain:
  "remove_unit_rules db unit_chain =
     (None, \<lparr>variables = {py ''A'', py ''B'', py ''C''}, terminals = {py ''a''},
             rules = [(py ''A'', [[py ''C'']]), (py ''B'', [[py ''a'']]), (py ''C'', [[py ''a'']])],
             start_variable = py ''A''\<rparr>)"
  by code_simp

lemma convert_shared_terminal:
  "convert_to_proper_form db shared_terminal =
     Some (None, \<lparr>variables = {py ''S'', py ''A'', py ''B''}, terminals = {py ''a'', py ''c''},
                  rules = [(py ''S'', [[py ''B'', py ''A''], [py ''B'', py ''A'']]),
                           (py ''B'', [[py ''a'']]), (py ''A'', [[py ''c'']])],
                  start_variable = py ''S''\<rparr>)"
  by code_simp

section \<open>The claims\<close>

text \<open>
  C1. After the whole pipeline every production should be one terminal or two variables
  (the epsilon production of the start variable apart). On \<open>S \<rightarrow> AAA | BBB\<close>,
  \<open>A \<rightarrow> a\<close>, \<open>B \<rightarrow> b\<close> the pipeline returns normally, and \<open>S\<close> still has the production
  \<open>BBB\<close> of length three: the first pass removes \<open>AAA\<close> from the list it is iterating
  over, so that the iterator steps over \<open>BBB\<close>.
\<close>

theorem pipeline_keeps_long_production:
  "\<exists>g'. main db sched two_long = Some (None, g')
     \<and> has_production g' (py ''S'') [py ''B'', py ''B'', py ''B'']
     \<and> \<not> proper_form g'"
  by (rule exI, rule conjI, rule main_two_long, code_simp)

text \<open>
  C2. After \<open>remove_unit_rules\<close> no production should be a single variable, and on the
  chain \<open>A \<rightarrow> B\<close>, \<open>B \<rightarrow> C\<close>, \<open>C \<rightarrow> a\<close> the variable \<open>A\<close> should have the production
  \<open>a\<close>. The stage returns normally with \<open>A \<rightarrow> C\<close> as the only production of \<open>A\<close>: the
  unit pairs are those of the grammar before the loop, and \<open>A \<rightarrow> C\<close> arises in it.
\<close>

theorem unit_chain_keeps_unit_rule:
  "\<exists>g'. remove_unit_rules db unit_chain = (None, g')
     \<and> has_production g' (py ''A'') [py ''C''] \<and> py ''C'' \<in> variables g'
     \<and> \<not> has_production g' (py ''A'') [py ''a'']"
  by (rule exI, rule conjI, rule remove_unit_rules_chain, code_simp)

text \<open>
  C3. After \<open>remove_epsilon_rules\<close> only the start variable should still have an epsilon
  production. On \<open>S \<rightarrow> Ab\<close>, \<open>A \<rightarrow> AA | a | \<epsilon>\<close> with start \<open>S\<close> the only nullable variable is
  \<open>A\<close>; its round rewrites \<open>AA\<close> into \<open>\<epsilon> | A | AA\<close>, and since \<open>A\<close> is visited by then
  it is not put back on the worklist. \<open>A\<close> ends with an epsilon production.
\<close>

theorem epsilon_survives_in_visited_variable:
  "\<exists>g'. remove_epsilon_rules sched self_nullable = Some (None, g')
     \<and> has_production g' (py ''A'') [eps] \<and> py ''A'' \<noteq> start_variable g'"
  by (rule exI, rule conjI, rule remove_epsilon_rules_self_nullable, code_simp)

text \<open>
  C4. After the whole pipeline the start variable should occur on no right-hand side. On
  \<open>S \<rightarrow> aSb | \<epsilon>\<close> no production equals \<open>[S]\<close>, so \<open>change_start_variable\<close> does nothing,
  and the result has the production \<open>U1 \<rightarrow> S U3\<close> with \<open>S\<close> still the start variable.
\<close>

theorem start_variable_stays_on_rhs:
  "\<exists>g'. main db sched anbn = Some (None, g') \<and> occurs_on_rhs (start_variable g') g'"
  by (rule exI, rule conjI, rule main_anbn, code_simp)



text \<open>
  C6, as amended. \<open>change_start_variable\<close> always uses the name \<open>S0\<close>. When some
  production equals \<open>[S]\<close> for the start variable \<open>S\<close>, \<open>S0\<close> is not yet in the variable
  set and \<open>S\<close> is, the call returns normally, \<open>S0\<close> is the new start variable, the variable
  set has grown by exactly \<open>S0\<close>, \<open>S0\<close> has the production \<open>[S]\<close> and the productions of
  every other variable are as before. When no production equals \<open>[S]\<close> the grammar is
  unchanged.
\<close>

theorem change_start_variable_effect:
  "(start_is_production g \<and> py ''S0'' \<notin> variables g \<and> start_variable g \<in> variables g
      \<and> distinct (map fst (rules g)) \<longrightarrow>
        (\<exists>g'. change_start_variable db g = (None, g')
           \<and> start_variable g' = py ''S0''
           \<and> variables g' = insert (py ''S0'') (variables g)
           \<and> has_production g' (py ''S0'') [start_variable g]
           \<and> (\<forall>v. v \<noteq> py ''S0'' \<longrightarrow> map_of (rules g') v = map_of (rules g) v)))
   \<and> (\<not> start_is_production g \<longrightarrow> change_start_variable db g = (None, g))"
proof (intro conjI impI)
  assume "\<not> start_is_production g"
  then show "change_start_variable db g = (None, g)" by (simp add: change_start_variable_def)
next
  assume a: "start_is_production g \<and> py ''S0'' \<notin> variables g
      \<and> start_variable g \<in> variables g \<and> distinct (map fst (rules g))"
  define g1 where "g1 = add_rhs_item db (py ''S0'') g [start_variable g]"
  have ar: "add_rule db (py ''S0'') [[start_variable g]] g = (None, g1)"
    by (simp add: add_rule_def match_lhs_S0 g1_def)
  have v1: "variables g1 = insert (py ''S0'') (variables g)"
    using a by (auto simp: g1_def add_rhs_item_effect)
  have hp: "has_production g1 (py ''S0'') [start_variable g]"
    by (simp add: g1_def add_rhs_item_effect)
  then obtain ps where ps: "map_of (rules g1) (py ''S0'') = Some ps" "[start_variable g] \<in> set ps"
    by (auto simp: has_production_def split: option.splits)
  have r1: "\<And>v. v \<noteq> py ''S0'' \<Longrightarrow> map_of (rules g1) v = map_of (rules g) v"
    by (simp add: g1_def add_rhs_item_def rules_add_product_other scan_items)
  have d1: "distinct (map fst (rules g1))"
    unfolding g1_def add_rhs_item_def by (rule keys_add_product) (simp add: scan_items a)
  define g' where "g' = g1\<lparr>start_variable := py ''S0'',
      rules := foldl (\<lambda>new_rules (variable, products).
                    if variable \<noteq> py ''S0'' then dict_set new_rules variable products else new_rules)
                 [(py ''S0'', ps)] (rules g1)\<rparr>"
  have c: "change_start_variable db g = (None, g')"
    using a ar ps(1) by (simp add: change_start_variable_def sort_rules_def g'_def)
  have "has_production g' (py ''S0'') [start_variable g]"
    using ps(2) by (simp add: g'_def has_production_def sort_fold_start)
  moreover have "\<forall>v. v \<noteq> py ''S0'' \<longrightarrow> map_of (rules g') v = map_of (rules g) v"
    using r1 by (auto simp: g'_def sort_fold_other [OF d1] split: option.splits)
  ultimately show "\<exists>g'. change_start_variable db g = (None, g')
               \<and> start_variable g' = py ''S0''
               \<and> variables g' = insert (py ''S0'') (variables g)
               \<and> has_production g' (py ''S0'') [start_variable g]
               \<and> (\<forall>v. v \<noteq> py ''S0'' \<longrightarrow> map_of (rules g') v = map_of (rules g) v)"
    using c v1 by (intro exI [of _ g']) (simp add: g'_def)
qed

theorem change_start_variable_effect_witness:
  "start_is_production unit_start \<and> py ''S0'' \<notin> variables unit_start
   \<and> start_variable unit_start \<in> variables unit_start
   \<and> distinct (map fst (rules unit_start))
   \<and> fst (change_start_variable ascii_ucd unit_start) = None
   \<and> start_variable (snd (change_start_variable ascii_ucd unit_start)) = py ''S0''
   \<and> variables (snd (change_start_variable ascii_ucd unit_start))
        = insert (py ''S0'') (variables unit_start)
   \<and> has_production (snd (change_start_variable ascii_ucd unit_start)) (py ''S0'')
        [start_variable unit_start]
   \<and> map_of (rules (snd (change_start_variable ascii_ucd unit_start))) (py ''A'')
        = map_of (rules unit_start) (py ''A'')
   \<and> \<not> start_is_production anbn \<and> change_start_variable ascii_ucd anbn = (None, anbn)"
proof -
  have h: "start_is_production unit_start \<and> py ''S0'' \<notin> variables unit_start
     \<and> start_variable unit_start \<in> variables unit_start
     \<and> distinct (map fst (rules unit_start))"
    by code_simp
  have u: "\<not> start_is_production anbn" "py ''A'' \<noteq> py ''S0''" by code_simp+
  show ?thesis
    using change_start_variable_effect [of unit_start ascii_ucd]
          change_start_variable_effect [of anbn ascii_ucd] h u
    by auto
qed

text \<open>
  C6 as stated fails when the name \<open>S0\<close> is in use: on \<open>S \<rightarrow> S0 a | a\<close>,
  \<open>S0 \<rightarrow> S | b\<close> the new start variable is the old variable \<open>S0\<close> and the variable set
  does not grow.
\<close>

theorem change_start_variable_reuses_S0:
  "start_is_production uses_S0
   \<and> fst (change_start_variable ascii_ucd uses_S0) = None
   \<and> start_variable (snd (change_start_variable ascii_ucd uses_S0)) = py ''S0''
   \<and> py ''S0'' \<in> variables uses_S0
   \<and> variables (snd (change_start_variable ascii_ucd uses_S0)) = variables uses_S0"
  by code_simp

text \<open>
  C7. \<open>add_rule\<close> should raise exactly when \<open>lhs\<close> is not an uppercase letter followed
  by digits, and change nothing when it raises. The left-hand side \<open>A\<close> followed by a
  newline is not such a name, yet \<open>add_rule\<close> accepts it and stores the rule under it:
  the \<open>$\<close> of the pattern also matches just before a newline that ends the string. On
  every other left-hand side the check is as claimed, and a call that raises leaves the
  grammar as it was (\<open>add_rule_check\<close>).
\<close>

theorem newline_lhs_accepted:
  "\<not> variable_name ascii_ucd [65, 10]
   \<and> fst (add_rule ascii_ucd [65, 10] [[py ''a'']] anbn) = None
   \<and> has_production (snd (add_rule ascii_ucd [65, 10] [[py ''a'']] anbn)) [65, 10] [py ''a'']"
  by code_simp

text \<open>
  C8. Every stage should keep the production lists free of repetitions. \<open>add_product\<close>,
  \<open>add_rule\<close>, \<open>change_start_variable\<close>, \<open>remove_epsilon_rules\<close> and \<open>remove_unit_rules\<close>
  do (section ``Production lists without repetitions''). The second pass of
  \<open>convert_to_proper_form\<close> assigns to a position of the list without looking at the rest
  of it: on \<open>S \<rightarrow> aA | BA\<close>, \<open>B \<rightarrow> a\<close>, \<open>A \<rightarrow> c\<close> it reuses \<open>B\<close> for the terminal \<open>a\<close> and
  leaves \<open>S \<rightarrow> BA | BA\<close>.
\<close>

theorem convert_introduces_duplicate:
  "no_duplicates shared_terminal
     \<and> (\<exists>g'. convert_to_proper_form db shared_terminal = Some (None, g') \<and> \<not> no_duplicates g')"
  by (rule conjI, code_simp, rule exI, rule conjI, rule convert_shared_terminal, code_simp)

text \<open>
  C9. \<open>remove_epsilon_rules\<close> terminates for every grammar and every order in which
  \<open>nullable.pop()\<close> may return the elements: the loop ends, the variables it popped
  (\<open>visited\<close>) are pairwise different and are keys of \<open>rules\<close>, so there are at most as
  many rounds as rules; and with the pairwise different keys of a dict it ends by returning,
  not by raising.
\<close>

theorem remove_epsilon_rules_terminates:
  "\<exists>e g' visited.
      eps_while sched [] (initial_nullable g) g = Some (e, g', visited)
      \<and> remove_epsilon_rules sched g = Some (e, g')
      \<and> distinct visited \<and> set visited \<subseteq> fst ` set (rules g)
      \<and> length visited \<le> length (rules g)
      \<and> (distinct (map fst (rules g)) \<longrightarrow> e = None)"
proof -
  from eps_while_terminates [of "initial_nullable g" g "[]" sched] initial_nullable_keys [of g]
  obtain e g' vis where w: "eps_while sched [] (initial_nullable g) g = Some (e, g', vis)"
    and d: "distinct vis" and s: "set vis \<subseteq> fst ` set (rules g)"
    by auto
  have "length vis = card (set vis)" using d by (simp add: distinct_card)
  also have "\<dots> \<le> card (fst ` set (rules g))" using s by (simp add: card_mono)
  also have "\<dots> \<le> length (rules g)" by (metis card_length length_map list.set_map)
  finally have l: "length vis \<le> length (rules g)" .
  have "e = None" if "distinct (map fst (rules g))"
    using eps_while_returns [OF w initial_nullable_eps [OF that] initial_nullable_keys] by simp
  with w d s l show ?thesis by (auto simp: remove_epsilon_rules_def)
qed

text \<open>C9 on \<open>S \<rightarrow> Ab\<close>, \<open>A \<rightarrow> AA | a | \<epsilon>\<close> with the schedule \<open>[1]\<close>.\<close>

theorem remove_epsilon_rules_terminates_witness:
  "distinct (map fst (rules self_nullable))
   \<and> (\<exists>g' visited.
        eps_while [1] [] (initial_nullable self_nullable) self_nullable = Some (None, g', visited)
        \<and> remove_epsilon_rules [1] self_nullable = Some (None, g')
        \<and> distinct visited \<and> length visited \<le> length (rules self_nullable))"
proof -
  have d: "distinct (map fst (rules self_nullable))" by code_simp
  with remove_epsilon_rules_terminates [of "[1]" self_nullable] show ?thesis by blast
qed

text \<open>
  C10. For a left-hand side that \<open>add_rule\<close> accepts, a symbol of a right-hand side that
  is neither uppercase nor lowercase nor the epsilon marker is stored with its production
  under \<open>lhs\<close>, and the call does not change whether it is in the variable set or in the
  terminal set.
\<close>

theorem add_rule_other_symbol:
  assumes "match_lhs db lhs" and "rhs_item \<in> set rhs" and "item \<in> set rhs_item"
      and "\<not> isupper db item" and "\<not> islower db item" and "item \<noteq> eps"
  shows "fst (add_rule db lhs rhs g) = None
         \<and> has_production (snd (add_rule db lhs rhs g)) lhs rhs_item
         \<and> (item \<in> variables (snd (add_rule db lhs rhs g))) = (item \<in> variables g)
         \<and> (item \<in> terminals (snd (add_rule db lhs rhs g))) = (item \<in> terminals g)"
proof -
  have "item \<noteq> lhs" using assms(1,4) match_lhs_isupper by blast
  with assms show ?thesis
    by (auto simp: add_rule_def add_rhs_items_sets has_production_add_rhs_items)
qed

text \<open>C10 on the rule \<open>S \<rightarrow> a1\<close>, added to the grammar \<open>S \<rightarrow> aSb | \<epsilon>\<close>.\<close>

theorem add_rule_other_symbol_witness:
  "match_lhs ascii_ucd (py ''S'') \<and> \<not> isupper ascii_ucd (py ''1'') \<and> \<not> islower ascii_ucd (py ''1'')
   \<and> py ''1'' \<noteq> eps
   \<and> fst (add_rule ascii_ucd (py ''S'') [[py ''a'', py ''1'']] anbn) = None
   \<and> has_production (snd (add_rule ascii_ucd (py ''S'') [[py ''a'', py ''1'']] anbn)) (py ''S'') [py ''a'', py ''1'']
   \<and> py ''1'' \<notin> variables (snd (add_rule ascii_ucd (py ''S'') [[py ''a'', py ''1'']] anbn))
   \<and> py ''1'' \<notin> terminals (snd (add_rule ascii_ucd (py ''S'') [[py ''a'', py ''1'']] anbn))"
proof -
  have h: "match_lhs ascii_ucd (py ''S'')" "[py ''a'', py ''1''] \<in> set [[py ''a'', py ''1'']]"
     "py ''1'' \<in> set [py ''a'', py ''1'']"
     "\<not> isupper ascii_ucd (py ''1'')" "\<not> islower ascii_ucd (py ''1'')" "py ''1'' \<noteq> eps"
    by code_simp+
  have v: "py ''1'' \<notin> variables anbn" "py ''1'' \<notin> terminals anbn" by code_simp+
  show ?thesis
    using add_rule_other_symbol [OF h, of anbn] h v by simp
qed

end
